theory Spec2Isabelle
  imports Complex_Main "HOL-Library.Monad_Syntax"
begin

section \<open>Data model (types/index.ts)\<close>

text \<open>
  Field names follow the source; \<open>id\<close>, \<open>x\<close>, \<open>y\<close>, \<open>from\<close> and \<open>to\<close> carry a suffix
  because they clash with HOL constants, Isar keywords or common variable names.
  The optional display label of a node plays no role in any traversal and is left out.
\<close>

record Node =
  id_n :: string
  x_n :: real
  y_n :: real

record Edge =
  from_e :: string
  to_e :: string
  weight :: real

record Graph =
  nodes :: "Node list"
  edges :: "Edge list"

text \<open>
  \<open>Map<string, string | null>\<close>: \<open>None\<close> is an absent key (\<open>get\<close> gives \<open>undefined\<close>),
  \<open>Some None\<close> is the value \<open>null\<close>, \<open>Some (Some p)\<close> is the parent id \<open>p\<close>.
\<close>

type_synonym parents = "string \<rightharpoonup> string option"

record PathStep =
  currentNode :: string
  visitedNodes :: "string set"
  previousNodes :: parents
  path :: "string list"
  isComplete :: bool

record AlgorithmResult =
  path_r :: "string list"
  steps_r :: "PathStep list"
  visitedNodes_r :: "string set"

record AlgorithmConfig =
  startNode :: string
  endNode :: string
  graph :: Graph

section \<open>Path reconstruction (reconstructPath, identical in dijkstra.ts, astar.ts, bfs.ts, dfs)\<close>

text \<open>
  \<open>previousNodes.get(current) || null\<close>: every falsy value becomes \<open>null\<close>, that is an
  absent key, a stored \<open>null\<close>, and also a stored empty string.
\<close>

definition get_or_null :: "parents \<Rightarrow> string \<Rightarrow> string option" where
  "get_or_null prev k =
     (case prev k of
        Some (Some p) \<Rightarrow> if p = [] then None else Some p
      | _ \<Rightarrow> None)"

text \<open>
  The \<open>while (current !== null)\<close> loop; \<open>path.unshift\<close> prepends. The loop has no bound in
  the source, so it is a partial function: \<open>None\<close> means that it does not return.
\<close>

partial_function (option) reconstructPath_loop ::
  "parents \<Rightarrow> string \<Rightarrow> string \<Rightarrow> string list \<Rightarrow> string list option" where
  "reconstructPath_loop prev start current pth =
     (if current = start then Some (current # pth)
      else (case get_or_null prev current of
              None \<Rightarrow> Some (current # pth)
            | Some nxt \<Rightarrow> reconstructPath_loop prev start nxt (current # pth)))"

definition reconstructPath :: "parents \<Rightarrow> string \<Rightarrow> string \<Rightarrow> string list option" where
  "reconstructPath prev start end_node =
     do {
       pth \<leftarrow> reconstructPath_loop prev start end_node [];
       Some (case pth of [] \<Rightarrow> [] | p # _ \<Rightarrow> if p = start then pth else [])
     }"

text \<open>
  The parent chain the specification speaks of: \<open>parent_chain prev start n p\<close> holds when
  \<open>p\<close> is obtained from \<open>n\<close> by following parent links backward, stopping when the start
  id is reached or a node without parent is hit. A cyclic parent map has no such chain.
\<close>

definition parent_of :: "parents \<Rightarrow> string \<Rightarrow> string option" where
  "parent_of prev k = (case prev k of Some (Some p) \<Rightarrow> Some p | _ \<Rightarrow> None)"

inductive parent_chain :: "parents \<Rightarrow> string \<Rightarrow> string \<Rightarrow> string list \<Rightarrow> bool" where
  at_start: "parent_chain prev start start [start]"
| no_parent: "n \<noteq> start \<Longrightarrow> parent_of prev n = None \<Longrightarrow> parent_chain prev start n [n]"
| link: "n \<noteq> start \<Longrightarrow> parent_of prev n = Some p \<Longrightarrow> parent_chain prev start p q
         \<Longrightarrow> parent_chain prev start n (q @ [n])"

section \<open>Numbers\<close>

text \<open>
  The scores the weighted traversals store and compare. \<open>Num r\<close> is a finite number
  (an edge weight, a sum of weights, a heuristic value), \<open>Infinity\<close> is the initial
  score of every node but the start, \<open>Undefined\<close> is what \<open>Map.get\<close> yields for an absent
  key. Adding to \<open>undefined\<close> gives \<open>NaN\<close>, and every comparison with \<open>undefined\<close> or
  \<open>NaN\<close> is false, so one constructor stands for both.

  Finite arithmetic is that of the reals, where the source computes in IEEE doubles. The
  two agree as long as every operand and result is exactly representable, in particular
  on integers of magnitude below \<open>2 ^ 53\<close> and on square roots of perfect squares; every
  concrete run evaluated below stays in that range. Where a sum reaches \<open>2 ^ 53\<close> the
  source rounds and the model does not, so a general statement about sums and comparisons
  of scores is a statement about exact arithmetic and says so.
\<close>

datatype jsnum = Num real | Infinity | Undefined

fun js_add :: "jsnum \<Rightarrow> real \<Rightarrow> jsnum" where
  "js_add (Num a) w = Num (a + w)"
| "js_add Infinity w = Infinity"
| "js_add Undefined w = Undefined"

fun js_lt :: "jsnum \<Rightarrow> jsnum \<Rightarrow> bool" where
  "js_lt (Num a) (Num b) = (a < b)"
| "js_lt (Num a) Infinity = True"
| "js_lt _ _ = False"

definition js_gt :: "jsnum \<Rightarrow> jsnum \<Rightarrow> bool" where
  "js_gt a b = js_lt b a"

section \<open>Priority frontier (utils/MinHeap)\<close>

text \<open>
  Modelled from the spec: the class \<open>MinHeap\<close> of utils/MinHeap is imported by dijkstra.ts
  and astar.ts and is not among the sources. The specification gives it
  \<open>insert(score, item)\<close> and \<open>extract-min()\<close>, which returns a lowest-score entry or the
  empty signal, with insertion order as the tie-break among equal scores. The entries are
  kept in insertion order and \<open>heap_pop\<close> removes the earliest entry that no other entry
  is strictly below.
\<close>

type_synonym MinHeap = "(jsnum \<times> string) list"

definition heap_push :: "MinHeap \<Rightarrow> jsnum \<Rightarrow> string \<Rightarrow> MinHeap" where
  "heap_push h priority d = h @ [(priority, d)]"

fun heap_pop :: "MinHeap \<Rightarrow> ((jsnum \<times> string) \<times> MinHeap) option" where
  "heap_pop [] = None"
| "heap_pop (e # h) =
     (case heap_pop h of
        None \<Rightarrow> Some (e, [])
      | Some (m, h') \<Rightarrow> if js_lt (fst m) (fst e) then Some (m, e # h') else Some (e, h))"

definition heap_isEmpty :: "MinHeap \<Rightarrow> bool" where
  "heap_isEmpty h = (h = [])"

section \<open>Shared initialisation\<close>

text \<open>\<open>graph.nodes.forEach(node => previousNodes.set(node.id, null))\<close>\<close>

definition init_previousNodes :: "Graph \<Rightarrow> parents" where
  "init_previousNodes g = foldl (\<lambda>m n. m(id_n n \<mapsto> None)) Map.empty (nodes g)"

text \<open>
  \<open>Map<string, number>\<close> read with \<open>get\<close>: a function into \<open>jsnum\<close>, \<open>Undefined\<close> on absent
  keys.
\<close>

type_synonym scores = "string \<Rightarrow> jsnum"

definition init_distances :: "Graph \<Rightarrow> string \<Rightarrow> scores" where
  "init_distances g start =
     foldl (\<lambda>m n. m(id_n n := (if id_n n = start then Num 0 else Infinity))) (\<lambda>_. Undefined) (nodes g)"

text \<open>
  The weighted adjacency list of dijkstra.ts and astar.ts. \<open>adjacencyList.get(k)?.push(v)\<close>
  does nothing when \<open>k\<close> is not a node id; the entry pushed on the other endpoint's list
  is pushed all the same.
\<close>

type_synonym adjacency = "string \<rightharpoonup> (string \<times> real) list"

definition add_edge :: "adjacency \<Rightarrow> Edge \<Rightarrow> adjacency" where
  "add_edge adj e =
     (let adj1 = (case adj (from_e e) of
                    None \<Rightarrow> adj
                  | Some l \<Rightarrow> adj(from_e e \<mapsto> l @ [(to_e e, weight e)]))
      in case adj1 (to_e e) of
           None \<Rightarrow> adj1
         | Some l \<Rightarrow> adj1(to_e e \<mapsto> l @ [(from_e e, weight e)]))"

definition build_adjacency :: "Graph \<Rightarrow> adjacency" where
  "build_adjacency g =
     foldl add_edge (foldl (\<lambda>m n. m(id_n n \<mapsto> [])) Map.empty (nodes g)) (edges g)"

text \<open>\<open>adjacencyList.get(currentNode) || []\<close>\<close>

definition neighbors_of :: "(string \<rightharpoonup> 'a list) \<Rightarrow> string \<Rightarrow> 'a list" where
  "neighbors_of adj k = (case adj k of None \<Rightarrow> [] | Some l \<Rightarrow> l)"

text \<open>The unweighted adjacency list of bfs.ts and dfs.\<close>

type_synonym adjacency_ids = "string \<rightharpoonup> string list"

definition add_edge_ids :: "adjacency_ids \<Rightarrow> Edge \<Rightarrow> adjacency_ids" where
  "add_edge_ids adj e =
     (let adj1 = (case adj (from_e e) of
                    None \<Rightarrow> adj
                  | Some l \<Rightarrow> adj(from_e e \<mapsto> l @ [to_e e]))
      in case adj1 (to_e e) of
           None \<Rightarrow> adj1
         | Some l \<Rightarrow> adj1(to_e e \<mapsto> l @ [from_e e]))"

definition build_adjacency_ids :: "Graph \<Rightarrow> adjacency_ids" where
  "build_adjacency_ids g =
     foldl add_edge_ids (foldl (\<lambda>m n. m(id_n n \<mapsto> [])) Map.empty (nodes g)) (edges g)"

definition make_step :: "string \<Rightarrow> string set \<Rightarrow> parents \<Rightarrow> string list \<Rightarrow> string \<Rightarrow> PathStep" where
  "make_step cur visited prev p end_node =
     \<lparr>currentNode = cur, visitedNodes = visited, previousNodes = prev, path = p,
      isComplete = (cur = end_node)\<rparr>"

section \<open>Dijkstra (dijkstra.ts)\<close>

text \<open>
  The body of \<open>neighbors.forEach\<close>, the same text in the batch function and in the class.
  It reads the visited set and updates distances, parents and the queue.
\<close>

definition dijkstra_relax ::
  "string set \<Rightarrow> string \<Rightarrow> scores \<times> parents \<times> MinHeap \<Rightarrow> string \<times> real
   \<Rightarrow> scores \<times> parents \<times> MinHeap" where
  "dijkstra_relax visited cur st nb =
     (case st of (dists, prev, pq) \<Rightarrow>
      case nb of (neighborId, w) \<Rightarrow>
        if neighborId \<notin> visited then
          (let newDistance = js_add (dists cur) w;
               oldDistance = dists neighborId
           in if js_lt newDistance oldDistance
              then (dists(neighborId := newDistance), prev(neighborId \<mapsto> Some cur),
                    heap_push pq newDistance neighborId)
              else st)
        else st)"

record DijkstraVars =
  steps_d :: "PathStep list"
  distances_d :: scores
  previousNodes_d :: parents
  visitedNodes_d :: "string set"
  pq_d :: MinHeap

definition dijkstra_neighbors :: "adjacency \<Rightarrow> string \<Rightarrow> DijkstraVars \<Rightarrow> DijkstraVars" where
  "dijkstra_neighbors adj cur v =
     (case foldl (dijkstra_relax (visitedNodes_d v) cur)
             (distances_d v, previousNodes_d v, pq_d v) (neighbors_of adj cur) of
        (dists, prev, pq) \<Rightarrow> v\<lparr>distances_d := dists, previousNodes_d := prev, pq_d := pq\<rparr>)"

text \<open>
  The \<open>while (!pq.isEmpty())\<close> loop of the batch function. The step is recorded before the
  stale-entry test.
\<close>

partial_function (option) dijkstra_loop ::
  "AlgorithmConfig \<Rightarrow> adjacency \<Rightarrow> DijkstraVars \<Rightarrow> DijkstraVars option" where
  "dijkstra_loop cfg adj v =
     (if heap_isEmpty (pq_d v) then Some v
      else case heap_pop (pq_d v) of
        None \<Rightarrow> Some v
      | Some (current, pq') \<Rightarrow>
          (if snd current \<in> visitedNodes_d v then dijkstra_loop cfg adj (v\<lparr>pq_d := pq'\<rparr>)
           else case reconstructPath (previousNodes_d v) (startNode cfg) (snd current) of
             None \<Rightarrow> None
           | Some p \<Rightarrow>
               (let visited = insert (snd current) (visitedNodes_d v);
                    v' = v\<lparr>pq_d := pq', visitedNodes_d := visited,
                           steps_d := steps_d v @
                             [make_step (snd current) visited (previousNodes_d v) p (endNode cfg)]\<rparr>
                in if snd current = endNode cfg then Some v'
                   else if js_gt (fst current) (distances_d v' (snd current))
                     then dijkstra_loop cfg adj v'
                   else dijkstra_loop cfg adj (dijkstra_neighbors adj (snd current) v'))))"

definition dijkstra :: "AlgorithmConfig \<Rightarrow> AlgorithmResult option" where
  "dijkstra cfg =
     (case dijkstra_loop cfg (build_adjacency (graph cfg))
             \<lparr>steps_d = [],
              distances_d = init_distances (graph cfg) (startNode cfg),
              previousNodes_d = init_previousNodes (graph cfg),
              visitedNodes_d = {},
              pq_d = heap_push [] (Num 0) (startNode cfg)\<rparr> of
        None \<Rightarrow> None
      | Some v \<Rightarrow>
          (case reconstructPath (previousNodes_d v) (startNode cfg) (endNode cfg) of
             None \<Rightarrow> None
           | Some finalPath \<Rightarrow>
               Some \<lparr>path_r = finalPath, steps_r = steps_d v, visitedNodes_r = visitedNodes_d v\<rparr>))"

text \<open>The class \<open>DijkstraStepByStep\<close>: its fields, \<open>init\<close>, \<open>step\<close>, \<open>reset\<close>, \<open>isComplete\<close>.\<close>

record DijkstraStepByStep =
  config_D :: "AlgorithmConfig option"
  distances_D :: scores
  previousNodes_D :: parents
  visitedNodes_D :: "string set"
  adjacencyList_D :: adjacency
  pq_D :: MinHeap
  complete_D :: bool

text \<open>The field initialisers of the class; \<open>reset\<close> restores them.\<close>

definition new_D :: "DijkstraStepByStep" where
  "new_D =
     \<lparr>config_D = None, distances_D = (\<lambda>_. Undefined), previousNodes_D = Map.empty,
      visitedNodes_D = {}, adjacencyList_D = Map.empty, pq_D = [], complete_D = False\<rparr>"

definition reset_D :: "DijkstraStepByStep \<Rightarrow> DijkstraStepByStep" where
  "reset_D s = new_D"

definition init_D :: "DijkstraStepByStep \<Rightarrow> AlgorithmConfig \<Rightarrow> DijkstraStepByStep" where
  "init_D s cfg =
     \<lparr>config_D = Some cfg,
      distances_D = init_distances (graph cfg) (startNode cfg),
      previousNodes_D = init_previousNodes (graph cfg),
      visitedNodes_D = {},
      adjacencyList_D = build_adjacency (graph cfg),
      pq_D = heap_push [] (Num 0) (startNode cfg),
      complete_D = False\<rparr>"

definition neighbors_D :: "string \<Rightarrow> DijkstraStepByStep \<Rightarrow> DijkstraStepByStep" where
  "neighbors_D cur s =
     (case foldl (dijkstra_relax (visitedNodes_D s) cur)
             (distances_D s, previousNodes_D s, pq_D s) (neighbors_of (adjacencyList_D s) cur) of
        (dists, prev, pq) \<Rightarrow> s\<lparr>distances_D := dists, previousNodes_D := prev, pq_D := pq\<rparr>)"

text \<open>
  \<open>step()\<close> returns the emitted PathStep or \<open>null\<close> (\<open>None\<close>) together with the new state
  of the object. \<open>return this.step()\<close> is the recursive call.
\<close>

partial_function (option) step_D ::
  "DijkstraStepByStep \<Rightarrow> (PathStep option \<times> DijkstraStepByStep) option" where
  "step_D s =
     (case config_D s of
        None \<Rightarrow> Some (None, s)
      | Some cfg \<Rightarrow>
          if complete_D s \<or> heap_isEmpty (pq_D s) then Some (None, s)
          else case heap_pop (pq_D s) of
            None \<Rightarrow> Some (None, s\<lparr>complete_D := True\<rparr>)
          | Some (current, pq') \<Rightarrow>
              (if snd current \<in> visitedNodes_D s then step_D (s\<lparr>pq_D := pq'\<rparr>)
               else if js_gt (fst current) (distances_D s (snd current))
                 then step_D (s\<lparr>pq_D := pq'\<rparr>)
               else case reconstructPath (previousNodes_D s) (startNode cfg) (snd current) of
                 None \<Rightarrow> None
               | Some p \<Rightarrow>
                   (let visited = insert (snd current) (visitedNodes_D s);
                        s' = s\<lparr>pq_D := pq', visitedNodes_D := visited\<rparr>;
                        pathStep = make_step (snd current) visited (previousNodes_D s) p (endNode cfg)
                    in if snd current = endNode cfg
                       then Some (Some pathStep, s'\<lparr>complete_D := True\<rparr>)
                       else Some (Some pathStep, neighbors_D (snd current) s'))))"

definition isComplete_D :: "DijkstraStepByStep \<Rightarrow> bool" where
  "isComplete_D s = complete_D s"

text \<open>
  Calling \<open>step()\<close> until it returns \<open>null\<close>, collecting the PathSteps it returns.
\<close>

partial_function (option) run_D :: "DijkstraStepByStep \<Rightarrow> PathStep list option" where
  "run_D s =
     (case step_D s of
        None \<Rightarrow> None
      | Some (None, s') \<Rightarrow> Some []
      | Some (Some p, s') \<Rightarrow> do { ps \<leftarrow> run_D s'; Some (p # ps) })"

section \<open>A* (astar.ts)\<close>

definition heuristic :: "string \<Rightarrow> string \<Rightarrow> Graph \<Rightarrow> real" where
  "heuristic nodeId targetId g =
     (case find (\<lambda>n. id_n n = nodeId) (nodes g) of
        None \<Rightarrow> 0
      | Some node \<Rightarrow>
          (case find (\<lambda>n. id_n n = targetId) (nodes g) of
             None \<Rightarrow> 0
           | Some target \<Rightarrow>
               (let dx = x_n node - x_n target;
                    dy = y_n node - y_n target
                in sqrt (dx * dx + dy * dy) / 20)))"

definition init_fScore :: "AlgorithmConfig \<Rightarrow> scores" where
  "init_fScore cfg =
     foldl (\<lambda>m n. m(id_n n := (if id_n n = startNode cfg
                                 then Num (heuristic (id_n n) (endNode cfg) (graph cfg))
                                 else Infinity)))
       (\<lambda>_. Undefined) (nodes (graph cfg))"

definition astar_relax ::
  "AlgorithmConfig \<Rightarrow> string set \<Rightarrow> string \<Rightarrow> scores \<times> scores \<times> parents \<times> MinHeap
   \<Rightarrow> string \<times> real \<Rightarrow> scores \<times> scores \<times> parents \<times> MinHeap" where
  "astar_relax cfg visited cur st nb =
     (case st of (gScore, fScore, prev, openSet) \<Rightarrow>
      case nb of (neighborId, w) \<Rightarrow>
        if neighborId \<notin> visited then
          (let tentativeG = js_add (gScore cur) w
           in if js_lt tentativeG (gScore neighborId)
              then (let h = heuristic neighborId (endNode cfg) (graph cfg);
                        newF = js_add tentativeG h
                    in (gScore(neighborId := tentativeG), fScore(neighborId := newF),
                        prev(neighborId \<mapsto> Some cur), heap_push openSet newF neighborId))
              else st)
        else st)"

record AStarVars =
  steps_a :: "PathStep list"
  gScore_a :: scores
  fScore_a :: scores
  previousNodes_a :: parents
  visitedNodes_a :: "string set"
  openSet_a :: MinHeap

definition astar_neighbors ::
  "AlgorithmConfig \<Rightarrow> adjacency \<Rightarrow> string \<Rightarrow> AStarVars \<Rightarrow> AStarVars" where
  "astar_neighbors cfg adj cur v =
     (case foldl (astar_relax cfg (visitedNodes_a v) cur)
             (gScore_a v, fScore_a v, previousNodes_a v, openSet_a v) (neighbors_of adj cur) of
        (g, f, prev, opn) \<Rightarrow>
          v\<lparr>gScore_a := g, fScore_a := f, previousNodes_a := prev, openSet_a := opn\<rparr>)"

partial_function (option) astar_loop ::
  "AlgorithmConfig \<Rightarrow> adjacency \<Rightarrow> AStarVars \<Rightarrow> AStarVars option" where
  "astar_loop cfg adj v =
     (if heap_isEmpty (openSet_a v) then Some v
      else case heap_pop (openSet_a v) of
        None \<Rightarrow> Some v
      | Some (current, opn') \<Rightarrow>
          (if snd current \<in> visitedNodes_a v then astar_loop cfg adj (v\<lparr>openSet_a := opn'\<rparr>)
           else case reconstructPath (previousNodes_a v) (startNode cfg) (snd current) of
             None \<Rightarrow> None
           | Some p \<Rightarrow>
               (let visited = insert (snd current) (visitedNodes_a v);
                    v' = v\<lparr>openSet_a := opn', visitedNodes_a := visited,
                           steps_a := steps_a v @
                             [make_step (snd current) visited (previousNodes_a v) p (endNode cfg)]\<rparr>
                in if snd current = endNode cfg then Some v'
                   else if js_gt (fst current) (fScore_a v' (snd current))
                     then astar_loop cfg adj v'
                   else astar_loop cfg adj (astar_neighbors cfg adj (snd current) v'))))"

definition astar :: "AlgorithmConfig \<Rightarrow> AlgorithmResult option" where
  "astar cfg =
     (case astar_loop cfg (build_adjacency (graph cfg))
             \<lparr>steps_a = [],
              gScore_a = init_distances (graph cfg) (startNode cfg),
              fScore_a = init_fScore cfg,
              previousNodes_a = init_previousNodes (graph cfg),
              visitedNodes_a = {},
              openSet_a = heap_push [] (init_fScore cfg (startNode cfg)) (startNode cfg)\<rparr> of
        None \<Rightarrow> None
      | Some v \<Rightarrow>
          (case reconstructPath (previousNodes_a v) (startNode cfg) (endNode cfg) of
             None \<Rightarrow> None
           | Some finalPath \<Rightarrow>
               Some \<lparr>path_r = finalPath, steps_r = steps_a v, visitedNodes_r = visitedNodes_a v\<rparr>))"

record AStarStepByStep =
  config_A :: "AlgorithmConfig option"
  gScore_A :: scores
  fScore_A :: scores
  previousNodes_A :: parents
  visitedNodes_A :: "string set"
  adjacencyList_A :: adjacency
  openSet_A :: MinHeap
  complete_A :: bool

text \<open>The field initialisers of the class; \<open>reset\<close> restores them.\<close>

definition new_A :: "AStarStepByStep" where
  "new_A =
     \<lparr>config_A = None, gScore_A = (\<lambda>_. Undefined), fScore_A = (\<lambda>_. Undefined),
      previousNodes_A = Map.empty, visitedNodes_A = {}, adjacencyList_A = Map.empty,
      openSet_A = [], complete_A = False\<rparr>"

definition reset_A :: "AStarStepByStep \<Rightarrow> AStarStepByStep" where
  "reset_A s = new_A"

definition init_A :: "AStarStepByStep \<Rightarrow> AlgorithmConfig \<Rightarrow> AStarStepByStep" where
  "init_A s cfg =
     \<lparr>config_A = Some cfg,
      gScore_A = init_distances (graph cfg) (startNode cfg),
      fScore_A = init_fScore cfg,
      previousNodes_A = init_previousNodes (graph cfg),
      visitedNodes_A = {},
      adjacencyList_A = build_adjacency (graph cfg),
      openSet_A = heap_push [] (init_fScore cfg (startNode cfg)) (startNode cfg),
      complete_A = False\<rparr>"

definition neighbors_A :: "AlgorithmConfig \<Rightarrow> string \<Rightarrow> AStarStepByStep \<Rightarrow> AStarStepByStep" where
  "neighbors_A cfg cur s =
     (case foldl (astar_relax cfg (visitedNodes_A s) cur)
             (gScore_A s, fScore_A s, previousNodes_A s, openSet_A s)
             (neighbors_of (adjacencyList_A s) cur) of
        (g, f, prev, opn) \<Rightarrow>
          s\<lparr>gScore_A := g, fScore_A := f, previousNodes_A := prev, openSet_A := opn\<rparr>)"

partial_function (option) step_A ::
  "AStarStepByStep \<Rightarrow> (PathStep option \<times> AStarStepByStep) option" where
  "step_A s =
     (case config_A s of
        None \<Rightarrow> Some (None, s)
      | Some cfg \<Rightarrow>
          if complete_A s \<or> heap_isEmpty (openSet_A s) then Some (None, s)
          else case heap_pop (openSet_A s) of
            None \<Rightarrow> Some (None, s\<lparr>complete_A := True\<rparr>)
          | Some (current, opn') \<Rightarrow>
              (if snd current \<in> visitedNodes_A s then step_A (s\<lparr>openSet_A := opn'\<rparr>)
               else if js_gt (fst current) (fScore_A s (snd current))
                 then step_A (s\<lparr>openSet_A := opn'\<rparr>)
               else case reconstructPath (previousNodes_A s) (startNode cfg) (snd current) of
                 None \<Rightarrow> None
               | Some p \<Rightarrow>
                   (let visited = insert (snd current) (visitedNodes_A s);
                        s' = s\<lparr>openSet_A := opn', visitedNodes_A := visited\<rparr>;
                        pathStep = make_step (snd current) visited (previousNodes_A s) p (endNode cfg)
                    in if snd current = endNode cfg
                       then Some (Some pathStep, s'\<lparr>complete_A := True\<rparr>)
                       else Some (Some pathStep, neighbors_A cfg (snd current) s'))))"

definition isComplete_A :: "AStarStepByStep \<Rightarrow> bool" where
  "isComplete_A s = complete_A s"

partial_function (option) run_A :: "AStarStepByStep \<Rightarrow> PathStep list option" where
  "run_A s =
     (case step_A s of
        None \<Rightarrow> None
      | Some (None, s') \<Rightarrow> Some []
      | Some (Some p, s') \<Rightarrow> do { ps \<leftarrow> run_A s'; Some (p # ps) })"

section \<open>Breadth-first search (bfs.ts)\<close>

text \<open>
  The queue is a list with its front at the head: \<open>shift\<close> takes the head, \<open>push\<close>
  appends. The body of \<open>neighbors.forEach\<close> marks the neighbour visited when it is pushed.
\<close>

definition bfs_relax ::
  "string \<Rightarrow> string set \<times> parents \<times> string list \<Rightarrow> string
   \<Rightarrow> string set \<times> parents \<times> string list" where
  "bfs_relax cur st neighborId =
     (case st of (visited, prev, queue) \<Rightarrow>
        if neighborId \<notin> visited
        then (insert neighborId visited, prev(neighborId \<mapsto> Some cur), queue @ [neighborId])
        else st)"

record BFSVars =
  steps_b :: "PathStep list"
  previousNodes_b :: parents
  visitedNodes_b :: "string set"
  queue_b :: "string list"

definition bfs_neighbors :: "adjacency_ids \<Rightarrow> string \<Rightarrow> BFSVars \<Rightarrow> BFSVars" where
  "bfs_neighbors adj cur v =
     (case foldl (bfs_relax cur) (visitedNodes_b v, previousNodes_b v, queue_b v)
             (neighbors_of adj cur) of
        (visited, prev, queue) \<Rightarrow>
          v\<lparr>visitedNodes_b := visited, previousNodes_b := prev, queue_b := queue\<rparr>)"

partial_function (option) bfs_loop ::
  "AlgorithmConfig \<Rightarrow> adjacency_ids \<Rightarrow> BFSVars \<Rightarrow> BFSVars option" where
  "bfs_loop cfg adj v =
     (case queue_b v of
        [] \<Rightarrow> Some v
      | cur # queue' \<Rightarrow>
          (case reconstructPath (previousNodes_b v) (startNode cfg) cur of
             None \<Rightarrow> None
           | Some p \<Rightarrow>
               (let v' = v\<lparr>queue_b := queue',
                           steps_b := steps_b v @
                             [make_step cur (visitedNodes_b v) (previousNodes_b v) p (endNode cfg)]\<rparr>
                in if cur = endNode cfg then Some v'
                   else bfs_loop cfg adj (bfs_neighbors adj cur v'))))"

definition bfs :: "AlgorithmConfig \<Rightarrow> AlgorithmResult option" where
  "bfs cfg =
     (case bfs_loop cfg (build_adjacency_ids (graph cfg))
             \<lparr>steps_b = [],
              previousNodes_b = init_previousNodes (graph cfg),
              visitedNodes_b = {startNode cfg},
              queue_b = [startNode cfg]\<rparr> of
        None \<Rightarrow> None
      | Some v \<Rightarrow>
          (case reconstructPath (previousNodes_b v) (startNode cfg) (endNode cfg) of
             None \<Rightarrow> None
           | Some finalPath \<Rightarrow>
               Some \<lparr>path_r = finalPath, steps_r = steps_b v, visitedNodes_r = visitedNodes_b v\<rparr>))"

record BFSStepByStep =
  config_B :: "AlgorithmConfig option"
  previousNodes_B :: parents
  visitedNodes_B :: "string set"
  adjacencyList_B :: adjacency_ids
  queue_B :: "string list"
  complete_B :: bool

text \<open>The field initialisers of the class; \<open>reset\<close> restores them.\<close>

definition new_B :: "BFSStepByStep" where
  "new_B =
     \<lparr>config_B = None, previousNodes_B = Map.empty, visitedNodes_B = {},
      adjacencyList_B = Map.empty, queue_B = [], complete_B = False\<rparr>"

definition reset_B :: "BFSStepByStep \<Rightarrow> BFSStepByStep" where
  "reset_B s = new_B"

definition init_B :: "BFSStepByStep \<Rightarrow> AlgorithmConfig \<Rightarrow> BFSStepByStep" where
  "init_B s cfg =
     \<lparr>config_B = Some cfg,
      previousNodes_B = init_previousNodes (graph cfg),
      visitedNodes_B = {startNode cfg},
      adjacencyList_B = build_adjacency_ids (graph cfg),
      queue_B = [startNode cfg],
      complete_B = False\<rparr>"

definition neighbors_B :: "string \<Rightarrow> BFSStepByStep \<Rightarrow> BFSStepByStep" where
  "neighbors_B cur s =
     (case foldl (bfs_relax cur) (visitedNodes_B s, previousNodes_B s, queue_B s)
             (neighbors_of (adjacencyList_B s) cur) of
        (visited, prev, queue) \<Rightarrow>
          s\<lparr>visitedNodes_B := visited, previousNodes_B := prev, queue_B := queue\<rparr>)"

definition step_B :: "BFSStepByStep \<Rightarrow> (PathStep option \<times> BFSStepByStep) option" where
  "step_B s =
     (case config_B s of
        None \<Rightarrow> Some (None, s)
      | Some cfg \<Rightarrow>
          if complete_B s then Some (None, s)
          else case queue_B s of
            [] \<Rightarrow> Some (None, s)
          | cur # queue' \<Rightarrow>
              (case reconstructPath (previousNodes_B s) (startNode cfg) cur of
                 None \<Rightarrow> None
               | Some p \<Rightarrow>
                   (let s' = s\<lparr>queue_B := queue'\<rparr>;
                        pathStep = make_step cur (visitedNodes_B s) (previousNodes_B s) p (endNode cfg)
                    in if cur = endNode cfg
                       then Some (Some pathStep, s'\<lparr>complete_B := True\<rparr>)
                       else Some (Some pathStep, neighbors_B cur s'))))"

definition isComplete_B :: "BFSStepByStep \<Rightarrow> bool" where
  "isComplete_B s = complete_B s"

partial_function (option) run_B :: "BFSStepByStep \<Rightarrow> PathStep list option" where
  "run_B s =
     (case step_B s of
        None \<Rightarrow> None
      | Some (None, s') \<Rightarrow> Some []
      | Some (Some p, s') \<Rightarrow> do { ps \<leftarrow> run_B s'; Some (p # ps) })"

section \<open>Depth-first search (dfs, in astar.ts after the A* class)\<close>

text \<open>
  The stack is a list with its top at the head: \<open>pop\<close> takes the head, \<open>push\<close> conses.
  The \<open>for\<close> loop walks the neighbour list from its last element to its first. The batch
  function tests \<open>!previousNodes.has(neighborId)\<close>, the class tests
  \<open>previousNodes.get(neighborId) === null\<close>. The \<open>distances\<close> and \<open>distance\<close> members that
  \<open>dfs\<close> adds to its steps and result are not members of PathStep and AlgorithmResult and
  are left out.
\<close>

definition dfs_relax ::
  "string set \<Rightarrow> string \<Rightarrow> parents \<times> string list \<Rightarrow> string \<Rightarrow> parents \<times> string list" where
  "dfs_relax visited cur st neighborId =
     (case st of (prev, stack) \<Rightarrow>
        if neighborId \<notin> visited \<and> neighborId \<notin> dom prev
        then (prev(neighborId \<mapsto> Some cur), neighborId # stack)
        else st)"

record DFSVars =
  steps_f :: "PathStep list"
  previousNodes_f :: parents
  visitedNodes_f :: "string set"
  stack_f :: "string list"

definition dfs_neighbors :: "adjacency_ids \<Rightarrow> string \<Rightarrow> DFSVars \<Rightarrow> DFSVars" where
  "dfs_neighbors adj cur v =
     (case foldl (dfs_relax (visitedNodes_f v) cur) (previousNodes_f v, stack_f v)
             (rev (neighbors_of adj cur)) of
        (prev, stack) \<Rightarrow> v\<lparr>previousNodes_f := prev, stack_f := stack\<rparr>)"

partial_function (option) dfs_loop ::
  "AlgorithmConfig \<Rightarrow> adjacency_ids \<Rightarrow> DFSVars \<Rightarrow> DFSVars option" where
  "dfs_loop cfg adj v =
     (case stack_f v of
        [] \<Rightarrow> Some v
      | cur # stack' \<Rightarrow>
          (if cur \<in> visitedNodes_f v then dfs_loop cfg adj (v\<lparr>stack_f := stack'\<rparr>)
           else case reconstructPath (previousNodes_f v) (startNode cfg) cur of
             None \<Rightarrow> None
           | Some p \<Rightarrow>
               (let visited = insert cur (visitedNodes_f v);
                    v' = v\<lparr>stack_f := stack', visitedNodes_f := visited,
                           steps_f := steps_f v @
                             [make_step cur visited (previousNodes_f v) p (endNode cfg)]\<rparr>
                in if cur = endNode cfg then Some v'
                   else dfs_loop cfg adj (dfs_neighbors adj cur v'))))"

definition dfs :: "AlgorithmConfig \<Rightarrow> AlgorithmResult option" where
  "dfs cfg =
     (case dfs_loop cfg (build_adjacency_ids (graph cfg))
             \<lparr>steps_f = [],
              previousNodes_f = init_previousNodes (graph cfg),
              visitedNodes_f = {},
              stack_f = [startNode cfg]\<rparr> of
        None \<Rightarrow> None
      | Some v \<Rightarrow>
          (case reconstructPath (previousNodes_f v) (startNode cfg) (endNode cfg) of
             None \<Rightarrow> None
           | Some finalPath \<Rightarrow>
               Some \<lparr>path_r = finalPath, steps_r = steps_f v, visitedNodes_r = visitedNodes_f v\<rparr>))"

record DFSStepByStep =
  config_F :: "AlgorithmConfig option"
  previousNodes_F :: parents
  visitedNodes_F :: "string set"
  adjacencyList_F :: adjacency_ids
  stack_F :: "string list"
  complete_F :: bool

text \<open>The field initialisers of the class; \<open>reset\<close> restores them.\<close>

definition new_F :: "DFSStepByStep" where
  "new_F =
     \<lparr>config_F = None, previousNodes_F = Map.empty, visitedNodes_F = {},
      adjacencyList_F = Map.empty, stack_F = [], complete_F = False\<rparr>"

definition reset_F :: "DFSStepByStep \<Rightarrow> DFSStepByStep" where
  "reset_F s = new_F"

definition init_F :: "DFSStepByStep \<Rightarrow> AlgorithmConfig \<Rightarrow> DFSStepByStep" where
  "init_F s cfg =
     \<lparr>config_F = Some cfg,
      previousNodes_F = init_previousNodes (graph cfg),
      visitedNodes_F = {},
      adjacencyList_F = build_adjacency_ids (graph cfg),
      stack_F = [startNode cfg],
      complete_F = False\<rparr>"

definition relax_F ::
  "string set \<Rightarrow> string \<Rightarrow> parents \<times> string list \<Rightarrow> string \<Rightarrow> parents \<times> string list" where
  "relax_F visited cur st neighborId =
     (case st of (prev, stack) \<Rightarrow>
        if neighborId \<notin> visited \<and> prev neighborId = Some None
        then (prev(neighborId \<mapsto> Some cur), neighborId # stack)
        else st)"

definition neighbors_F :: "string \<Rightarrow> DFSStepByStep \<Rightarrow> DFSStepByStep" where
  "neighbors_F cur s =
     (case foldl (relax_F (visitedNodes_F s) cur) (previousNodes_F s, stack_F s)
             (rev (neighbors_of (adjacencyList_F s) cur)) of
        (prev, stack) \<Rightarrow> s\<lparr>previousNodes_F := prev, stack_F := stack\<rparr>)"

partial_function (option) step_F ::
  "DFSStepByStep \<Rightarrow> (PathStep option \<times> DFSStepByStep) option" where
  "step_F s =
     (case config_F s of
        None \<Rightarrow> Some (None, s)
      | Some cfg \<Rightarrow>
          if complete_F s then Some (None, s)
          else case stack_F s of
            [] \<Rightarrow> Some (None, s)
          | cur # stack' \<Rightarrow>
              (if cur \<in> visitedNodes_F s then step_F (s\<lparr>stack_F := stack'\<rparr>)
               else case reconstructPath (previousNodes_F s) (startNode cfg) cur of
                 None \<Rightarrow> None
               | Some p \<Rightarrow>
                   (let visited = insert cur (visitedNodes_F s);
                        s' = s\<lparr>stack_F := stack', visitedNodes_F := visited\<rparr>;
                        pathStep = make_step cur visited (previousNodes_F s) p (endNode cfg)
                    in if cur = endNode cfg
                       then Some (Some pathStep, s'\<lparr>complete_F := True\<rparr>)
                       else Some (Some pathStep, neighbors_F cur s'))))"

definition isComplete_F :: "DFSStepByStep \<Rightarrow> bool" where
  "isComplete_F s = complete_F s"

partial_function (option) run_F :: "DFSStepByStep \<Rightarrow> PathStep list option" where
  "run_F s =
     (case step_F s of
        None \<Rightarrow> None
      | Some (None, s') \<Rightarrow> Some []
      | Some (Some p, s') \<Rightarrow> do { ps \<leftarrow> run_F s'; Some (p # ps) })"

text \<open>Evaluation follows the recursion equations of the loops.\<close>

declare reconstructPath_loop.simps [code]
declare dijkstra_loop.simps [code]
declare step_D.simps [code]
declare run_D.simps [code]
declare astar_loop.simps [code]
declare step_A.simps [code]
declare run_A.simps [code]
declare bfs_loop.simps [code]
declare run_B.simps [code]
declare dfs_loop.simps [code]
declare step_F.simps [code]
declare run_F.simps [code]

section \<open>Race judge (the winner effect of ComparisonView.tsx)\<close>

datatype verdict = Left | Right | Tie

text \<open>\<open>Array.prototype.findIndex\<close>: the first index whose element satisfies the test, or -1.\<close>

primrec findIndex :: "('a \<Rightarrow> bool) \<Rightarrow> 'a list \<Rightarrow> int" where
  "findIndex P [] = - 1"
| "findIndex P (a # as) =
     (if P a then 0 else (let r = findIndex P as in if r = - 1 then - 1 else r + 1))"

definition foundPath :: "PathStep \<Rightarrow> string \<Rightarrow> string \<Rightarrow> bool" where
  "foundPath final start end_node =
     (length (path final) > 0 \<and> hd (path final) = start \<and> last (path final) = end_node)"

text \<open>
  The body of the effect. The result is the argument of the \<open>setWinner\<close> call that is
  reached, \<open>None\<close> when the guard fails and no verdict is set.
\<close>

definition determineWinner ::
  "int \<Rightarrow> PathStep list \<Rightarrow> PathStep list \<Rightarrow> string \<Rightarrow> string \<Rightarrow> verdict option" where
  "determineWinner currentStep leftSteps rightSteps start end_node =
     (let maxSteps = max (int (length leftSteps)) (int (length rightSteps)) in
      if currentStep \<ge> maxSteps - 1 \<and> length leftSteps > 0 \<and> length rightSteps > 0 then
        (let leftFinal = last leftSteps;
             rightFinal = last rightSteps;
             leftFoundPath = foundPath leftFinal start end_node;
             rightFoundPath = foundPath rightFinal start end_node
         in
         if \<not> leftFoundPath \<and> \<not> rightFoundPath then Some Tie
         else if leftFoundPath \<and> \<not> rightFoundPath then Some Left
         else if rightFoundPath \<and> \<not> leftFoundPath then Some Right
         else
           (let leftFinishStep = findIndex isComplete leftSteps;
                rightFinishStep = findIndex isComplete rightSteps
            in
            if leftFinishStep \<noteq> - 1 \<and> rightFinishStep \<noteq> - 1 \<and> leftFinishStep < rightFinishStep
              then Some Left
            else if leftFinishStep \<noteq> - 1 \<and> rightFinishStep \<noteq> - 1 \<and> rightFinishStep < leftFinishStep
              then Some Right
            else
              (let leftVisited = card (visitedNodes leftFinal);
                   rightVisited = card (visitedNodes rightFinal)
               in
               if leftVisited < rightVisited then Some Left
               else if rightVisited < leftVisited then Some Right
               else Some Tie)))
      else None)"

text \<open>
  The step index at which a side's completion flag first became true, as the
  specification words it.
\<close>

definition first_complete_at :: "PathStep list \<Rightarrow> nat \<Rightarrow> bool" where
  "first_complete_at stps i =
     (i < length stps \<and> isComplete (stps ! i) \<and> (\<forall>k<i. \<not> isComplete (stps ! k)))"


section \<open>Auxiliary notions for the statements\<close>

definition node_ids :: "Graph \<Rightarrow> string set" where
  "node_ids g = id_n ` set (nodes g)"

text \<open>\<open>call_n f n s\<close>: \<open>n\<close> successive calls of a method \<open>f\<close> on an object in state \<open>s\<close>.\<close>

primrec call_n :: "('s \<Rightarrow> ('r \<times> 's) option) \<Rightarrow> nat \<Rightarrow> 's \<Rightarrow> ('r list \<times> 's) option" where
  "call_n f 0 s = Some ([], s)"
| "call_n f (Suc n) s =
     (case f s of
        None \<Rightarrow> None
      | Some (r, s1) \<Rightarrow>
          (case call_n f n s1 of None \<Rightarrow> None | Some (rs, s2) \<Rightarrow> Some (r # rs, s2)))"

text \<open>
  How one call of \<open>step()\<close> changes the completion flag: it is set afterwards exactly when
  it was set before or the call returned a PathStep for the target node.
\<close>

definition complete_rel ::
  "AlgorithmConfig option \<Rightarrow> bool \<Rightarrow> PathStep option \<Rightarrow> bool \<Rightarrow> bool" where
  "complete_rel c before r after \<longleftrightarrow>
     (after \<longleftrightarrow>
        before \<or> (\<exists>p cfg. r = Some p \<and> c = Some cfg \<and> currentNode p = endNode cfg \<and> isComplete p))"

text \<open>What every batch function returns when the start id is not a node of the graph.\<close>

definition missing_start_result :: "AlgorithmConfig \<Rightarrow> AlgorithmResult" where
  "missing_start_result cfg =
     \<lparr>path_r = (if endNode cfg = startNode cfg then [startNode cfg] else []),
      steps_r = [make_step (startNode cfg) {startNode cfg} (init_previousNodes (graph cfg))
                   [startNode cfg] (endNode cfg)],
      visitedNodes_r = {startNode cfg}\<rparr>"

section \<open>Concrete inputs\<close>

definition mk_node :: "string \<Rightarrow> real \<Rightarrow> real \<Rightarrow> Node" where
  "mk_node i a b = \<lparr>id_n = i, x_n = a, y_n = b\<rparr>"

definition mk_edge :: "string \<Rightarrow> string \<Rightarrow> real \<Rightarrow> Edge" where
  "mk_edge a b w = \<lparr>from_e = a, to_e = b, weight = w\<rparr>"

definition mk_cfg :: "string \<Rightarrow> string \<Rightarrow> Graph \<Rightarrow> AlgorithmConfig" where
  "mk_cfg a b g = \<lparr>startNode = a, endNode = b, graph = g\<rparr>"

definition mk_step :: "string \<Rightarrow> string set \<Rightarrow> string list \<Rightarrow> bool \<Rightarrow> PathStep" where
  "mk_step c v p f =
     \<lparr>currentNode = c, visitedNodes = v, previousNodes = Map.empty, path = p, isComplete = f\<rparr>"

text \<open>Scenario A of the specification: edges a-b (1), b-c (1), a-c (5).\<close>

definition triangle :: Graph where
  "triangle =
     \<lparr>nodes = [mk_node ''a'' 0 0, mk_node ''b'' 0 0, mk_node ''c'' 0 0],
      edges = [mk_edge ''a'' ''b'' 1, mk_edge ''b'' ''c'' 1, mk_edge ''a'' ''c'' 5]\<rparr>"

text \<open>One node and one edge whose other endpoint \<open>z\<close> is not a node.\<close>

definition dangling :: Graph where
  "dangling = \<lparr>nodes = [mk_node ''a'' 0 0], edges = [mk_edge ''a'' ''z'' 1]\<rparr>"

text \<open>A parent map with a cycle that does not contain the start id.\<close>

definition cyclic_parents :: parents where
  "cyclic_parents = [''b'' \<mapsto> Some ''c'', ''c'' \<mapsto> Some ''b'']"

definition prel :: "parents \<Rightarrow> (string \<times> string) set" where
  "prel prev = {(p, n). get_or_null prev n = Some p}"

definition steps_ok :: "PathStep list \<Rightarrow> bool" where
  "steps_ok stps \<longleftrightarrow>
     sorted_wrt (\<lambda>a b. visitedNodes a \<subseteq> visitedNodes b) stps \<and> distinct (map currentNode stps)"

definition endpoints :: "Graph \<Rightarrow> string set" where
  "endpoints g = from_e ` set (edges g) \<union> to_e ` set (edges g)"

definition universe :: "AlgorithmConfig \<Rightarrow> string set" where
  "universe cfg = insert (startNode cfg) (endpoints (graph cfg))"

definition contrib :: "string \<Rightarrow> Edge \<Rightarrow> (string \<times> real) list" where
  "contrib k e = (if from_e e = k then [(to_e e, weight e)] else []) @
                 (if to_e e = k then [(from_e e, weight e)] else [])"

definition dijkstra_iter ::
  "AlgorithmConfig \<Rightarrow> adjacency \<Rightarrow> DijkstraVars \<Rightarrow> (DijkstraVars + DijkstraVars) option" where
  "dijkstra_iter cfg adj v =
     (if heap_isEmpty (pq_d v) then Some (Inl v)
      else case heap_pop (pq_d v) of
        None \<Rightarrow> Some (Inl v)
      | Some (current, pq') \<Rightarrow>
          (if snd current \<in> visitedNodes_d v then Some (Inr (v\<lparr>pq_d := pq'\<rparr>))
           else case reconstructPath (previousNodes_d v) (startNode cfg) (snd current) of
             None \<Rightarrow> None
           | Some p \<Rightarrow>
               (let visited = insert (snd current) (visitedNodes_d v);
                    v' = v\<lparr>pq_d := pq', visitedNodes_d := visited,
                           steps_d := steps_d v @
                             [make_step (snd current) visited (previousNodes_d v) p (endNode cfg)]\<rparr>
                in if snd current = endNode cfg then Some (Inl v')
                   else if js_gt (fst current) (distances_d v' (snd current))
                     then Some (Inr v')
                   else Some (Inr (dijkstra_neighbors adj (snd current) v')))))"

definition dijkstra_inv :: "AlgorithmConfig \<Rightarrow> DijkstraVars \<Rightarrow> bool" where
  "dijkstra_inv cfg v \<longleftrightarrow>
     steps_ok (steps_d v) \<and>
     currentNode ` set (steps_d v) = visitedNodes_d v \<and>
     (\<forall>st \<in> set (steps_d v). visitedNodes st \<subseteq> visitedNodes_d v) \<and>
     snd ` set (pq_d v) \<subseteq> universe cfg \<and>
     visitedNodes_d v \<subseteq> universe cfg \<and>
     wf (prel (previousNodes_d v)) \<and>
     fst ` prel (previousNodes_d v) \<subseteq> visitedNodes_d v"

definition frontier_measure :: "string set \<Rightarrow> ('s \<Rightarrow> string set) \<Rightarrow> ('s \<Rightarrow> nat) \<Rightarrow> ('s \<times> 's) set" where
  "frontier_measure U done_of size_of =
     inv_image (less_than <*lex*> less_than) (\<lambda>v. (card (U - done_of v), size_of v))"

definition relax_ok :: "string set \<Rightarrow> string set \<Rightarrow> parents \<Rightarrow> string set \<Rightarrow> bool" where
  "relax_ok V U prev N \<longleftrightarrow> N \<subseteq> U \<and> wf (prel prev) \<and> fst ` prel prev \<subseteq> V"

definition dijkstra_visit ::
  "AlgorithmConfig \<Rightarrow> DijkstraVars \<Rightarrow> string \<Rightarrow> MinHeap \<Rightarrow> string list \<Rightarrow> DijkstraVars" where
  "dijkstra_visit cfg v cur pq' p =
     v\<lparr>pq_d := pq', visitedNodes_d := insert cur (visitedNodes_d v),
       steps_d := steps_d v @
         [make_step cur (insert cur (visitedNodes_d v)) (previousNodes_d v) p (endNode cfg)]\<rparr>"

abbreviation dijkstra_measure :: "AlgorithmConfig \<Rightarrow> (DijkstraVars \<times> DijkstraVars) set" where
  "dijkstra_measure cfg \<equiv> frontier_measure (universe cfg) visitedNodes_d (\<lambda>v. length (pq_d v))"

definition dijkstra_init :: "AlgorithmConfig \<Rightarrow> DijkstraVars" where
  "dijkstra_init cfg =
     \<lparr>steps_d = [],
      distances_d = init_distances (graph cfg) (startNode cfg),
      previousNodes_d = init_previousNodes (graph cfg),
      visitedNodes_d = {},
      pq_d = heap_push [] (Num 0) (startNode cfg)\<rparr>"

definition astar_visit ::
  "AlgorithmConfig \<Rightarrow> AStarVars \<Rightarrow> string \<Rightarrow> MinHeap \<Rightarrow> string list \<Rightarrow> AStarVars" where
  "astar_visit cfg v cur opn' p =
     v\<lparr>openSet_a := opn', visitedNodes_a := insert cur (visitedNodes_a v),
       steps_a := steps_a v @
         [make_step cur (insert cur (visitedNodes_a v)) (previousNodes_a v) p (endNode cfg)]\<rparr>"

definition astar_iter ::
  "AlgorithmConfig \<Rightarrow> adjacency \<Rightarrow> AStarVars \<Rightarrow> (AStarVars + AStarVars) option" where
  "astar_iter cfg adj v =
     (case heap_pop (openSet_a v) of
        None \<Rightarrow> Some (Inl v)
      | Some (current, opn') \<Rightarrow>
          (if snd current \<in> visitedNodes_a v then Some (Inr (v\<lparr>openSet_a := opn'\<rparr>))
           else case reconstructPath (previousNodes_a v) (startNode cfg) (snd current) of
             None \<Rightarrow> None
           | Some p \<Rightarrow>
               (if snd current = endNode cfg then Some (Inl (astar_visit cfg v (snd current) opn' p))
                else if js_gt (fst current) (fScore_a v (snd current))
                  then Some (Inr (astar_visit cfg v (snd current) opn' p))
                else Some (Inr (astar_neighbors cfg adj (snd current)
                                  (astar_visit cfg v (snd current) opn' p))))))"

definition astar_inv :: "AlgorithmConfig \<Rightarrow> AStarVars \<Rightarrow> bool" where
  "astar_inv cfg v \<longleftrightarrow>
     steps_ok (steps_a v) \<and>
     currentNode ` set (steps_a v) = visitedNodes_a v \<and>
     (\<forall>st \<in> set (steps_a v). visitedNodes st \<subseteq> visitedNodes_a v) \<and>
     visitedNodes_a v \<subseteq> universe cfg \<and>
     relax_ok (visitedNodes_a v) (universe cfg) (previousNodes_a v) (snd ` set (openSet_a v))"

definition astar_init :: "AlgorithmConfig \<Rightarrow> AStarVars" where
  "astar_init cfg =
     \<lparr>steps_a = [],
      gScore_a = init_distances (graph cfg) (startNode cfg),
      fScore_a = init_fScore cfg,
      previousNodes_a = init_previousNodes (graph cfg),
      visitedNodes_a = {},
      openSet_a = heap_push [] (init_fScore cfg (startNode cfg)) (startNode cfg)\<rparr>"

abbreviation astar_measure :: "AlgorithmConfig \<Rightarrow> (AStarVars \<times> AStarVars) set" where
  "astar_measure cfg \<equiv> frontier_measure (universe cfg) visitedNodes_a (\<lambda>v. length (openSet_a v))"

definition contrib_ids :: "string \<Rightarrow> Edge \<Rightarrow> string list" where
  "contrib_ids k e = (if from_e e = k then [to_e e] else []) @ (if to_e e = k then [from_e e] else [])"

definition bfs_visit ::
  "AlgorithmConfig \<Rightarrow> BFSVars \<Rightarrow> string \<Rightarrow> string list \<Rightarrow> string list \<Rightarrow> BFSVars" where
  "bfs_visit cfg v cur queue' p =
     v\<lparr>queue_b := queue',
       steps_b := steps_b v @
         [make_step cur (visitedNodes_b v) (previousNodes_b v) p (endNode cfg)]\<rparr>"

definition bfs_iter ::
  "AlgorithmConfig \<Rightarrow> adjacency_ids \<Rightarrow> BFSVars \<Rightarrow> (BFSVars + BFSVars) option" where
  "bfs_iter cfg adj v =
     (case queue_b v of
        [] \<Rightarrow> Some (Inl v)
      | cur # queue' \<Rightarrow>
          (case reconstructPath (previousNodes_b v) (startNode cfg) cur of
             None \<Rightarrow> None
           | Some p \<Rightarrow>
               (if cur = endNode cfg then Some (Inl (bfs_visit cfg v cur queue' p))
                else Some (Inr (bfs_neighbors adj cur (bfs_visit cfg v cur queue' p))))))"

definition bfs_fold_ok ::
  "string set \<Rightarrow> string set \<Rightarrow> string set \<Rightarrow> string set \<times> parents \<times> string list \<Rightarrow> bool" where
  "bfs_fold_ok E U V0 st \<longleftrightarrow>
     (case st of (visited, prev, queue) \<Rightarrow>
        E \<inter> set queue = {} \<and> distinct queue \<and> E \<union> set queue = visited \<and> V0 \<subseteq> visited \<and>
        visited \<subseteq> U \<and> wf (prel prev) \<and> fst ` prel prev \<subseteq> E)"

definition bfs_inv :: "AlgorithmConfig \<Rightarrow> BFSVars \<Rightarrow> bool" where
  "bfs_inv cfg v \<longleftrightarrow>
     steps_ok (steps_b v) \<and>
     (\<forall>st \<in> set (steps_b v). visitedNodes st \<subseteq> visitedNodes_b v) \<and>
     bfs_fold_ok (currentNode ` set (steps_b v)) (universe cfg) (visitedNodes_b v)
       (visitedNodes_b v, previousNodes_b v, queue_b v)"

definition bfs_init :: "AlgorithmConfig \<Rightarrow> BFSVars" where
  "bfs_init cfg =
     \<lparr>steps_b = [],
      previousNodes_b = init_previousNodes (graph cfg),
      visitedNodes_b = {startNode cfg},
      queue_b = [startNode cfg]\<rparr>"

abbreviation bfs_measure :: "AlgorithmConfig \<Rightarrow> (BFSVars \<times> BFSVars) set" where
  "bfs_measure cfg \<equiv>
     frontier_measure (universe cfg) (\<lambda>v. currentNode ` set (steps_b v)) (\<lambda>v. length (queue_b v))"

definition dfs_visit ::
  "AlgorithmConfig \<Rightarrow> DFSVars \<Rightarrow> string \<Rightarrow> string list \<Rightarrow> string list \<Rightarrow> DFSVars" where
  "dfs_visit cfg v cur stack' p =
     v\<lparr>stack_f := stack', visitedNodes_f := insert cur (visitedNodes_f v),
       steps_f := steps_f v @
         [make_step cur (insert cur (visitedNodes_f v)) (previousNodes_f v) p (endNode cfg)]\<rparr>"

definition dfs_iter ::
  "AlgorithmConfig \<Rightarrow> adjacency_ids \<Rightarrow> DFSVars \<Rightarrow> (DFSVars + DFSVars) option" where
  "dfs_iter cfg adj v =
     (case stack_f v of
        [] \<Rightarrow> Some (Inl v)
      | cur # stack' \<Rightarrow>
          (if cur \<in> visitedNodes_f v then Some (Inr (v\<lparr>stack_f := stack'\<rparr>))
           else case reconstructPath (previousNodes_f v) (startNode cfg) cur of
             None \<Rightarrow> None
           | Some p \<Rightarrow>
               (if cur = endNode cfg then Some (Inl (dfs_visit cfg v cur stack' p))
                else Some (Inr (dfs_neighbors adj cur (dfs_visit cfg v cur stack' p))))))"

definition dfs_inv :: "AlgorithmConfig \<Rightarrow> DFSVars \<Rightarrow> bool" where
  "dfs_inv cfg v \<longleftrightarrow>
     steps_ok (steps_f v) \<and>
     currentNode ` set (steps_f v) = visitedNodes_f v \<and>
     (\<forall>st \<in> set (steps_f v). visitedNodes st \<subseteq> visitedNodes_f v) \<and>
     visitedNodes_f v \<subseteq> universe cfg \<and>
     relax_ok (visitedNodes_f v) (universe cfg) (previousNodes_f v) (set (stack_f v))"

definition dfs_init :: "AlgorithmConfig \<Rightarrow> DFSVars" where
  "dfs_init cfg =
     \<lparr>steps_f = [],
      previousNodes_f = init_previousNodes (graph cfg),
      visitedNodes_f = {},
      stack_f = [startNode cfg]\<rparr>"

abbreviation dfs_measure :: "AlgorithmConfig \<Rightarrow> (DFSVars \<times> DFSVars) set" where
  "dfs_measure cfg \<equiv> frontier_measure (universe cfg) visitedNodes_f (\<lambda>v. length (stack_f v))"

subsection \<open>Shortest paths: vocabulary of the optimality proofs\<close>

text \<open>
  \<open>hval\<close> is the heuristic of a node towards the target of a run. An \<open>arc\<close> is an edge
  between two nodes of the graph, read in either direction as the adjacency lists do;
  edges with an endpoint outside the node set are never relaxed by \<open>dijkstra\<close> or
  \<open>astar\<close> and are no arcs. \<open>reach g s n d\<close> says that some walk of arcs from \<open>s\<close> to \<open>n\<close>
  has total weight \<open>d\<close>. A configuration is \<open>consistent\<close> when the heuristic obeys the
  triangle inequality along every arc.
\<close>

definition hval :: "AlgorithmConfig \<Rightarrow> string \<Rightarrow> real" where
  "hval cfg n = heuristic n (endNode cfg) (graph cfg)"

definition arc :: "Graph \<Rightarrow> string \<Rightarrow> string \<Rightarrow> real \<Rightarrow> bool" where
  "arc g u v w \<longleftrightarrow>
     u \<in> node_ids g \<and> v \<in> node_ids g \<and>
     (\<exists>e \<in> set (edges g). weight e = w \<and>
        (from_e e = u \<and> to_e e = v \<or> to_e e = u \<and> from_e e = v))"

inductive reach :: "Graph \<Rightarrow> string \<Rightarrow> string \<Rightarrow> real \<Rightarrow> bool" where
  reach_start: "s \<in> node_ids g \<Longrightarrow> reach g s s 0"
| reach_step: "reach g s u d \<Longrightarrow> arc g u v w \<Longrightarrow> reach g s v (d + w)"

definition consistent :: "AlgorithmConfig \<Rightarrow> bool" where
  "consistent cfg \<longleftrightarrow> (\<forall>u v w. arc (graph cfg) u v w \<longrightarrow> hval cfg u \<le> w + hval cfg v)"

definition is_num :: "jsnum \<Rightarrow> bool" where
  "is_num a \<longleftrightarrow> (\<exists>d. a = Num d)"

text \<open>
  The invariant of the search loops. \<open>opt_base\<close> relates the tentative distances \<open>G\<close>, the
  parent map \<open>P\<close>, the finalized set \<open>V\<close> and the entries \<open>Q\<close> of the priority queue:
  every finite distance is the weight of a walk, finalized distances are minimal, every
  open node with a finite distance has a queue entry carrying its current score, and
  every parent link is an arc from a finalized node that accounts for the distance.
\<close>

definition relaxed :: "scores \<Rightarrow> string \<Rightarrow> string \<Rightarrow> real \<Rightarrow> bool" where
  "relaxed G u v w \<longleftrightarrow> (\<forall>du. G u = Num du \<longrightarrow> (\<exists>dv. G v = Num dv \<and> dv \<le> du + w))"

definition relaxed_from :: "AlgorithmConfig \<Rightarrow> string set \<Rightarrow> scores \<Rightarrow> bool" where
  "relaxed_from cfg V G \<longleftrightarrow> (\<forall>u \<in> V. \<forall>v w. arc (graph cfg) u v w \<longrightarrow> relaxed G u v w)"

definition opt_base ::
  "AlgorithmConfig \<Rightarrow> string set \<Rightarrow> scores \<Rightarrow> parents \<Rightarrow> (jsnum \<times> string) set \<Rightarrow> bool" where
  "opt_base cfg V G P Q \<longleftrightarrow>
     V \<subseteq> node_ids (graph cfg) \<and>
     (\<forall>n. n \<notin> node_ids (graph cfg) \<longrightarrow> G n = Undefined) \<and>
     (\<forall>n \<in> node_ids (graph cfg). G n \<noteq> Undefined) \<and>
     (\<forall>n d. G n = Num d \<longrightarrow> reach (graph cfg) (startNode cfg) n d) \<and>
     (\<exists>d0. d0 \<le> 0 \<and> G (startNode cfg) = Num d0) \<and>
     (\<forall>n \<in> V. \<exists>d. G n = Num d \<and> (\<forall>d'. reach (graph cfg) (startNode cfg) n d' \<longrightarrow> d \<le> d')) \<and>
     (\<forall>n d. n \<notin> V \<and> G n = Num d \<longrightarrow> (Num (d + hval cfg n), n) \<in> Q) \<and>
     (\<forall>x \<in> Q. \<exists>d dn. fst x = Num (d + hval cfg (snd x)) \<and> G (snd x) = Num dn \<and> dn \<le> d) \<and>
     (\<forall>n p. P n = Some (Some p) \<longrightarrow>
        p \<in> V \<and> (\<exists>w dp. arc (graph cfg) p n w \<and> G p = Num dp \<and> G n = Num (dp + w))) \<and>
     (\<forall>n d. G n = Num d \<and> n \<noteq> startNode cfg \<longrightarrow> (\<exists>p. P n = Some (Some p)))"

definition scores_of_g :: "AlgorithmConfig \<Rightarrow> scores \<Rightarrow> scores" where
  "scores_of_g cfg G = (\<lambda>x. js_add (G x) (hval cfg x))"

definition astar_fold_inv ::
  "AlgorithmConfig \<Rightarrow> string set \<Rightarrow> string \<Rightarrow> (string \<times> real) list
   \<Rightarrow> scores \<times> scores \<times> parents \<times> MinHeap \<Rightarrow> bool" where
  "astar_fold_inv cfg V cur pre st \<longleftrightarrow>
     (case st of (G, F, P, opn) \<Rightarrow>
        opt_base cfg V G P (set opn) \<and>
        F = scores_of_g cfg G \<and>
        relaxed_from cfg (V - {cur}) G \<and>
        (\<forall>nb \<in> set pre. fst nb \<in> node_ids (graph cfg) \<longrightarrow> relaxed G cur (fst nb) (snd nb)))"

definition astar_opt :: "AlgorithmConfig \<Rightarrow> AStarVars \<Rightarrow> bool" where
  "astar_opt cfg v \<longleftrightarrow>
     opt_base cfg (visitedNodes_a v) (gScore_a v) (previousNodes_a v) (set (openSet_a v)) \<and>
     fScore_a v = scores_of_g cfg (gScore_a v) \<and>
     relaxed_from cfg (visitedNodes_a v) (gScore_a v) \<and>
     endNode cfg \<notin> visitedNodes_a v"

definition astar_post :: "AlgorithmConfig \<Rightarrow> AStarVars \<Rightarrow> bool" where
  "astar_post cfg v \<longleftrightarrow>
     opt_base cfg (visitedNodes_a v) (gScore_a v) (previousNodes_a v) (set (openSet_a v)) \<and>
     (endNode cfg \<in> visitedNodes_a v \<or>
      openSet_a v = [] \<and> relaxed_from cfg (visitedNodes_a v) (gScore_a v))"

text \<open>
  The weight of a path is the sum over its consecutive pairs of the weight of the
  cheapest edge that joins the pair (a graph may hold parallel edges). A path lists
  nodes of the graph, consecutive ones joined by an edge.
\<close>

definition edge_weights :: "Graph \<Rightarrow> string \<Rightarrow> string \<Rightarrow> real list" where
  "edge_weights g u v =
     map weight (filter (\<lambda>e. from_e e = u \<and> to_e e = v \<or> to_e e = u \<and> from_e e = v) (edges g))"

definition edge_cost :: "Graph \<Rightarrow> string \<Rightarrow> string \<Rightarrow> real" where
  "edge_cost g u v = Min (set (edge_weights g u v))"

fun path_weight :: "Graph \<Rightarrow> string list \<Rightarrow> real" where
  "path_weight g (u # v # p) = edge_cost g u v + path_weight g (v # p)"
| "path_weight g p = 0"

fun is_path :: "Graph \<Rightarrow> string list \<Rightarrow> bool" where
  "is_path g [] = False"
| "is_path g [u] = (u \<in> node_ids g)"
| "is_path g (u # v # p) = (u \<in> node_ids g \<and> edge_weights g u v \<noteq> [] \<and> is_path g (v # p))"

definition path_between :: "Graph \<Rightarrow> string \<Rightarrow> string \<Rightarrow> string list \<Rightarrow> bool" where
  "path_between g s t q \<longleftrightarrow> is_path g q \<and> hd q = s \<and> last q = t"

definition shortest :: "Graph \<Rightarrow> string \<Rightarrow> string \<Rightarrow> string list \<Rightarrow> bool" where
  "shortest g s t q \<longleftrightarrow>
     path_between g s t q \<and> (\<forall>q'. path_between g s t q' \<longrightarrow> path_weight g q \<le> path_weight g q')"

definition shortest_or_empty :: "AlgorithmConfig \<Rightarrow> string list \<Rightarrow> bool" where
  "shortest_or_empty cfg q \<longleftrightarrow>
     (if \<exists>q'. path_between (graph cfg) (startNode cfg) (endNode cfg) q'
      then shortest (graph cfg) (startNode cfg) (endNode cfg) q
      else q = [])"

text \<open>
  \<open>flat cfg\<close> moves every node to the origin, which makes the heuristic vanish:
  \<open>dijkstra\<close> on \<open>cfg\<close> is \<open>astar\<close> on \<open>flat cfg\<close>, state by state under \<open>to_dijkstra\<close>.
  \<open>weights_admissible\<close> asks every edge between two nodes to weigh at least the
  heuristic between its endpoints.
\<close>

definition flat :: "AlgorithmConfig \<Rightarrow> AlgorithmConfig" where
  "flat cfg =
     cfg\<lparr>graph := (graph cfg)\<lparr>nodes := map (\<lambda>n. n\<lparr>x_n := 0, y_n := 0\<rparr>) (nodes (graph cfg))\<rparr>\<rparr>"

definition to_dijkstra :: "AStarVars \<Rightarrow> DijkstraVars" where
  "to_dijkstra v =
     \<lparr>steps_d = steps_a v, distances_d = gScore_a v, previousNodes_d = previousNodes_a v,
      visitedNodes_d = visitedNodes_a v, pq_d = openSet_a v\<rparr>"

definition weights_admissible :: "Graph \<Rightarrow> bool" where
  "weights_admissible g \<longleftrightarrow>
     (\<forall>e \<in> set (edges g). from_e e \<in> node_ids g \<and> to_e e \<in> node_ids g \<longrightarrow>
        heuristic (from_e e) (to_e e) g \<le> weight e)"

text \<open>Concrete graphs used to evaluate the search functions.\<close>

definition detour :: Graph where
  "detour =
     \<lparr>nodes = [mk_node ''s'' 0 0, mk_node ''m'' 60 0, mk_node ''t'' 0 0],
      edges = [mk_edge ''s'' ''t'' 3, mk_edge ''s'' ''m'' 1, mk_edge ''m'' ''t'' 1]\<rparr>"

definition line3 :: Graph where
  "line3 =
     \<lparr>nodes = [mk_node ''a'' 0 0, mk_node ''b'' 20 0, mk_node ''c'' 40 0],
      edges = [mk_edge ''a'' ''b'' 1, mk_edge ''b'' ''c'' 1, mk_edge ''a'' ''c'' 5]\<rparr>"

definition empty_id :: Graph where
  "empty_id =
     \<lparr>nodes = [mk_node ''a'' 0 0, mk_node [] 0 0, mk_node ''c'' 0 0],
      edges = [mk_edge ''a'' [] 1, mk_edge [] ''c'' 1]\<rparr>"

text \<open>
  A graph of the shape \<open>generateRandomGraph\<close> (utils/graphGenerator.ts) builds: ids
  \<open>node-i\<close>, positions inside the 750 by 550 canvas at least 60 apart, edges from the
  lower to the higher index, and for an edge between nodes at distance \<open>d\<close> the weight
  \<open>Math.min(Math.floor(d / 20) + 1, 20)\<close>. The four nodes lie on a horizontal line; the
  distances of the four edges are 60, 290, 650 and 300, which gives the weights 4, 15, 20
  (capped) and 16. The graph is connected, so \<open>ensureConnected\<close> adds nothing.
\<close>

definition generated4 :: Graph where
  "generated4 =
     \<lparr>nodes = [mk_node ''node-0'' 110 100, mk_node ''node-1'' 50 100,
               mk_node ''node-2'' 400 100, mk_node ''node-3'' 700 100],
      edges = [mk_edge ''node-0'' ''node-1'' 4, mk_edge ''node-0'' ''node-2'' 15,
               mk_edge ''node-1'' ''node-3'' 20, mk_edge ''node-2'' ''node-3'' 16]\<rparr>"


section \<open>Path reconstruction: results\<close>

lemma parent_chain_last: "parent_chain prev start n p \<Longrightarrow> p \<noteq> [] \<and> last p = n"
  by (induction rule: parent_chain.induct) auto

lemma reconstructPath_loop_chain:
  "parent_chain prev start n p \<Longrightarrow> [] \<notin> set (butlast p) \<Longrightarrow>
   reconstructPath_loop prev start n acc = Some (p @ acc)"
proof (induction arbitrary: acc rule: parent_chain.induct)
  case (at_start prev start)
  show ?case by (subst reconstructPath_loop.simps) simp
next
  case (no_parent n start prev)
  then have "get_or_null prev n = None"
    by (auto simp: get_or_null_def parent_of_def split: option.splits)
  with no_parent show ?case by (subst reconstructPath_loop.simps) simp
next
  case (link n start prev p q)
  from link.hyps(3) have q: "q \<noteq> []" "last q = p" using parent_chain_last by auto
  from link.prems have nq: "[] \<notin> set q" by (simp add: butlast_append)
  with q have "p \<noteq> []" using last_in_set by metis
  with link.hyps(2) have g: "get_or_null prev n = Some p"
    by (auto simp: get_or_null_def parent_of_def split: option.splits)
  from nq have "[] \<notin> set (butlast q)" by (meson in_set_butlastD)
  then have "reconstructPath_loop prev start p (n # acc) = Some (q @ n # acc)"
    by (rule link.IH)
  with g link.hyps(1) show ?case by (subst reconstructPath_loop.simps) simp
qed

text \<open>
  Claim C7, as amended. Whenever the parent links from the queried node form a finite
  chain \<open>p\<close> (they stop at the start id or at a node without parent) and no link of the
  chain is the empty string, \<open>reconstructPath\<close> returns: the empty sequence when the chain
  does not begin at the start id, and otherwise the chain itself, whose first element is
  the start id and whose last element is the queried node.
\<close>

theorem reconstructPath_follows_chain:
  "parent_chain prev start n p \<Longrightarrow> [] \<notin> set (butlast p) \<Longrightarrow>
     (hd p \<noteq> start \<longrightarrow> reconstructPath prev start n = Some []) \<and>
     (hd p = start \<longrightarrow> reconstructPath prev start n = Some p \<and> hd p = start \<and> last p = n)"
  using reconstructPath_loop_chain[of prev start n p "[]"] parent_chain_last[of prev start n p]
  by (auto simp: reconstructPath_def split: list.splits)

theorem reconstructPath_follows_chain_witness:
  "parent_chain [''a'' \<mapsto> None, ''b'' \<mapsto> Some ''a'', ''c'' \<mapsto> Some ''b''] ''a'' ''c'' [''a'', ''b'', ''c'']
   \<and> [] \<notin> set (butlast [''a'', ''b'', ''c''])
   \<and> reconstructPath [''a'' \<mapsto> None, ''b'' \<mapsto> Some ''a'', ''c'' \<mapsto> Some ''b''] ''a'' ''c''
       = Some [''a'', ''b'', ''c'']"
proof -
  let ?m = "[''a'' \<mapsto> None, ''b'' \<mapsto> Some ''a'', ''c'' \<mapsto> Some ''b'']"
  have a: "parent_chain ?m ''a'' ''a'' [''a'']" by (rule parent_chain.at_start)
  have b: "parent_chain ?m ''a'' ''b'' ([''a''] @ [''b''])"
    by (rule parent_chain.link[OF _ _ a]) (simp_all add: parent_of_def)
  have c: "parent_chain ?m ''a'' ''c'' (([''a''] @ [''b'']) @ [''c''])"
    by (rule parent_chain.link[OF _ _ b]) (simp_all add: parent_of_def)
  then have c': "parent_chain ?m ''a'' ''c'' [''a'', ''b'', ''c'']" by simp
  have n: "[] \<notin> set (butlast [''a'', ''b'', ''c''])" by simp
  from reconstructPath_follows_chain[OF c' n] c' n show ?thesis by simp
qed

text \<open>
  On a parent map whose links run in a cycle that avoids the start id, the loop of
  \<open>reconstructPath\<close> never leaves the cycle: the function does not return.
\<close>

lemma reconstructPath_loop_cycle:
  "reconstructPath_loop prev start n acc = Some r \<Longrightarrow>
   \<not> (prev = cyclic_parents \<and> start = ''a'' \<and> (n = ''b'' \<or> n = ''c''))"
proof (induction rule: reconstructPath_loop.raw_induct[rotated 1, consumes 1])
  case (1 f prev start n acc r)
  show ?case
  proof
    assume a: "prev = cyclic_parents \<and> start = ''a'' \<and> (n = ''b'' \<or> n = ''c'')"
    then consider "n = ''b''" | "n = ''c''" by blast
    then show False
    proof cases
      case 1
      with a \<open>(if n = start then _ else _) = Some r\<close>
      have "f cyclic_parents ''a'' ''c'' (''b'' # acc) = Some r"
        by (simp add: get_or_null_def cyclic_parents_def)
      from "1.IH"[OF this] show False by simp
    next
      case 2
      with a \<open>(if n = start then _ else _) = Some r\<close>
      have "f cyclic_parents ''a'' ''b'' (''c'' # acc) = Some r"
        by (simp add: get_or_null_def cyclic_parents_def)
      from "1.IH"[OF this] show False by simp
    qed
  qed
qed

theorem reconstructPath_cycle_counterexample:
  "reconstructPath [''b'' \<mapsto> Some ''c'', ''c'' \<mapsto> Some ''b''] ''a'' ''b'' = None"
proof -
  have "reconstructPath_loop cyclic_parents ''a'' ''b'' [] = None"
    using reconstructPath_loop_cycle[of cyclic_parents "''a''" "''b''" "[]"]
    by (cases "reconstructPath_loop cyclic_parents ''a'' ''b'' []") auto
  then show ?thesis by (simp add: reconstructPath_def cyclic_parents_def)
qed

section \<open>Basic facts\<close>

lemma heap_pop_None: "heap_pop h = None \<longleftrightarrow> h = []"
  by (cases h) (auto split: option.splits prod.splits)

lemma foldl_null_apply:
  "foldl (\<lambda>m n. m(id_n n \<mapsto> v)) m0 ns k = (if k \<in> id_n ` set ns then Some v else m0 k)"
  by (induction ns arbitrary: m0) auto

lemma dom_foldl_null:
  "dom (foldl (\<lambda>m n. m(id_n n \<mapsto> v)) m0 ns) = dom m0 \<union> id_n ` set ns"
  by (induction ns arbitrary: m0) auto

lemma init_previousNodes_apply:
  "init_previousNodes g k = (if k \<in> node_ids g then Some None else None)"
  by (simp add: init_previousNodes_def node_ids_def foldl_null_apply)

lemma foldl_scores_apply:
  "foldl (\<lambda>m n. m(id_n n := c (id_n n))) m0 ns k = (if k \<in> id_n ` set ns then c k else m0 k)"
  by (induction ns arbitrary: m0) auto

lemma init_distances_apply:
  "init_distances g s k =
     (if k \<in> node_ids g then (if k = s then Num 0 else Infinity) else Undefined)"
  unfolding init_distances_def node_ids_def
  by (rule foldl_scores_apply[where c = "\<lambda>i. if i = s then Num 0 else Infinity"])

lemma init_fScore_apply:
  "init_fScore cfg k =
     (if k \<in> node_ids (graph cfg)
      then (if k = startNode cfg then Num (heuristic k (endNode cfg) (graph cfg)) else Infinity)
      else Undefined)"
  unfolding init_fScore_def node_ids_def
  by (rule foldl_scores_apply[where c = "\<lambda>i. if i = startNode cfg
        then Num (heuristic i (endNode cfg) (graph cfg)) else Infinity"])

lemma dom_add_edge: "dom (add_edge adj e) = dom adj"
  by (auto simp: add_edge_def Let_def split: option.splits if_splits)

lemma dom_foldl_add_edge: "dom (foldl add_edge adj es) = dom adj"
  by (induction es arbitrary: adj) (auto simp: dom_add_edge)

lemma dom_build_adjacency: "dom (build_adjacency g) = node_ids g"
  by (simp add: build_adjacency_def dom_foldl_add_edge node_ids_def dom_foldl_null)

lemma dom_add_edge_ids: "dom (add_edge_ids adj e) = dom adj"
  by (auto simp: add_edge_ids_def Let_def split: option.splits if_splits)

lemma dom_foldl_add_edge_ids: "dom (foldl add_edge_ids adj es) = dom adj"
  by (induction es arbitrary: adj) (auto simp: dom_add_edge_ids)

lemma dom_build_adjacency_ids: "dom (build_adjacency_ids g) = node_ids g"
  by (simp add: build_adjacency_ids_def dom_foldl_add_edge_ids node_ids_def dom_foldl_null)

lemma neighbors_of_absent: "k \<notin> dom adj \<Longrightarrow> neighbors_of adj k = []"
  by (auto simp: neighbors_of_def split: option.splits)

lemma get_or_null_init: "get_or_null (init_previousNodes g) k = None"
  by (simp add: get_or_null_def init_previousNodes_apply)

lemma reconstructPath_init:
  "reconstructPath (init_previousNodes g) s n = Some (if n = s then [s] else [])"
  unfolding reconstructPath_def
  by (subst reconstructPath_loop.simps) (simp add: get_or_null_init)

section \<open>Race judge\<close>

lemma findIndex_first:
  "i < length xs \<Longrightarrow> P (xs ! i) \<Longrightarrow> (\<forall>k<i. \<not> P (xs ! k)) \<Longrightarrow> findIndex P xs = int i"
proof (induction xs arbitrary: i)
  case Nil
  then show ?case by simp
next
  case (Cons a xs)
  show ?case
  proof (cases i)
    case 0
    with Cons.prems show ?thesis by simp
  next
    case (Suc j)
    with Cons.prems have "\<not> P a" by auto
    moreover from Suc Cons.prems have "findIndex P xs = int j"
      by (intro Cons.IH) auto
    ultimately show ?thesis using Suc by (simp add: Let_def)
  qed
qed

lemma findIndex_first_complete:
  "first_complete_at stps i \<Longrightarrow> findIndex isComplete stps = int i"
  unfolding first_complete_at_def by (rule findIndex_first) auto

text \<open>
  Claim C3. Once both step sequences are complete (both are non-empty and the replay
  cursor has reached the last index of the longer one), the verdict follows the
  precedence: a side whose final path runs from the start node to the end node beats a
  side whose final path does not; when neither does, the verdict is a tie; when both do,
  the side whose completion flag first became true at the smaller step index wins, at
  equal indices the side with the smaller final visited set wins, and otherwise the
  verdict is a tie.
\<close>

theorem race_judge_precedence:
  "currentStep \<ge> max (int (length l)) (int (length r)) - 1 \<Longrightarrow> l \<noteq> [] \<Longrightarrow> r \<noteq> [] \<Longrightarrow>
   (foundPath (last l) s e \<and> \<not> foundPath (last r) s e
      \<longrightarrow> determineWinner currentStep l r s e = Some Left) \<and>
   (foundPath (last r) s e \<and> \<not> foundPath (last l) s e
      \<longrightarrow> determineWinner currentStep l r s e = Some Right) \<and>
   (\<not> foundPath (last l) s e \<and> \<not> foundPath (last r) s e
      \<longrightarrow> determineWinner currentStep l r s e = Some Tie) \<and>
   (foundPath (last l) s e \<and> foundPath (last r) s e \<and>
    first_complete_at l i \<and> first_complete_at r j \<longrightarrow>
      determineWinner currentStep l r s e =
        Some (if i < j then Left else if j < i then Right
              else if card (visitedNodes (last l)) < card (visitedNodes (last r)) then Left
              else if card (visitedNodes (last r)) < card (visitedNodes (last l)) then Right
              else Tie))"
  by (auto simp: determineWinner_def Let_def dest!: findIndex_first_complete)

theorem race_judge_precedence_witness:
  "(1::int) \<ge> max (int (length [mk_step ''a'' {''a''} [''a''] False,
                                   mk_step ''c'' {''a'', ''c''} [''a'', ''c''] True]))
               (int (length [mk_step ''a'' {''a''} [''a''] False,
                             mk_step ''c'' {''a'', ''c''} [''a'', ''c''] True])) - 1
   \<and> foundPath (last [mk_step ''a'' {''a''} [''a''] False,
                       mk_step ''c'' {''a'', ''c''} [''a'', ''c''] True]) ''a'' ''c''
   \<and> first_complete_at [mk_step ''a'' {''a''} [''a''] False,
                         mk_step ''c'' {''a'', ''c''} [''a'', ''c''] True] 1
   \<and> determineWinner 1
        [mk_step ''a'' {''a''} [''a''] False, mk_step ''c'' {''a'', ''c''} [''a'', ''c''] True]
        [mk_step ''a'' {''a''} [''a''] False, mk_step ''c'' {''a'', ''c''} [''a'', ''c''] True]
        ''a'' ''c'' = Some Tie"
proof -
  let ?l = "[mk_step ''a'' {''a''} [''a''] False, mk_step ''c'' {''a'', ''c''} [''a'', ''c''] True]"
  have g: "(1::int) \<ge> max (int (length ?l)) (int (length ?l)) - 1" by simp
  have ne: "?l \<noteq> []" by simp
  have f: "foundPath (last ?l) ''a'' ''c''" by (simp add: foundPath_def mk_step_def)
  have c: "first_complete_at ?l 1" by (simp add: first_complete_at_def mk_step_def)
  from race_judge_precedence[OF g ne ne, of "''a''" "''c''" 1 1] f c g
  show ?thesis by simp
qed

section \<open>Start id outside the graph\<close>

lemma dijkstra_missing_start:
  assumes "startNode cfg \<notin> node_ids (graph cfg)"
  shows "dijkstra cfg = Some (missing_start_result cfg)"
proof -
  have n: "neighbors_of (build_adjacency (graph cfg)) (startNode cfg) = []"
    using assms by (simp add: neighbors_of_absent dom_build_adjacency)
  show ?thesis
    unfolding dijkstra_def
    apply (subst dijkstra_loop.simps)
    apply (simp add: heap_push_def heap_isEmpty_def reconstructPath_init Let_def
        init_distances_apply assms js_gt_def dijkstra_neighbors_def n)
    apply (subst dijkstra_loop.simps)
    apply (simp add: heap_isEmpty_def reconstructPath_init missing_start_result_def)
    done
qed

lemma astar_missing_start:
  assumes "startNode cfg \<notin> node_ids (graph cfg)"
  shows "astar cfg = Some (missing_start_result cfg)"
proof -
  have n: "neighbors_of (build_adjacency (graph cfg)) (startNode cfg) = []"
    using assms by (simp add: neighbors_of_absent dom_build_adjacency)
  show ?thesis
    unfolding astar_def
    apply (subst astar_loop.simps)
    apply (simp add: heap_push_def heap_isEmpty_def reconstructPath_init Let_def
        init_fScore_apply assms js_gt_def astar_neighbors_def n)
    apply (subst astar_loop.simps)
    apply (simp add: heap_isEmpty_def reconstructPath_init missing_start_result_def)
    done
qed

lemma bfs_missing_start:
  assumes "startNode cfg \<notin> node_ids (graph cfg)"
  shows "bfs cfg = Some (missing_start_result cfg)"
proof -
  have n: "neighbors_of (build_adjacency_ids (graph cfg)) (startNode cfg) = []"
    using assms by (simp add: neighbors_of_absent dom_build_adjacency_ids)
  show ?thesis
    unfolding bfs_def
    apply (subst bfs_loop.simps)
    apply (simp add: reconstructPath_init Let_def bfs_neighbors_def n)
    apply (subst bfs_loop.simps)
    apply (simp add: reconstructPath_init missing_start_result_def)
    done
qed

lemma dfs_missing_start:
  assumes "startNode cfg \<notin> node_ids (graph cfg)"
  shows "dfs cfg = Some (missing_start_result cfg)"
proof -
  have n: "neighbors_of (build_adjacency_ids (graph cfg)) (startNode cfg) = []"
    using assms by (simp add: neighbors_of_absent dom_build_adjacency_ids)
  show ?thesis
    unfolding dfs_def
    apply (subst dfs_loop.simps)
    apply (simp add: reconstructPath_init Let_def dfs_neighbors_def n)
    apply (subst dfs_loop.simps)
    apply (simp add: reconstructPath_init missing_start_result_def)
    done
qed

text \<open>
  Claim C5, as amended. For every graph and every start id that is not a node of the
  graph, each of the four batch functions returns, having emitted exactly one PathStep:
  the one that finalizes the start id itself. The visited set is the singleton of the
  start id, and the final path is empty unless the end id is the start id.
\<close>

theorem missing_start_one_step:
  "startNode cfg \<notin> node_ids (graph cfg) \<Longrightarrow>
     dijkstra cfg = Some (missing_start_result cfg) \<and>
     astar cfg = Some (missing_start_result cfg) \<and>
     bfs cfg = Some (missing_start_result cfg) \<and>
     dfs cfg = Some (missing_start_result cfg)"
  by (simp add: dijkstra_missing_start astar_missing_start bfs_missing_start dfs_missing_start)

theorem missing_start_one_step_witness:
  "startNode (mk_cfg ''z'' ''c'' triangle) \<notin> node_ids (graph (mk_cfg ''z'' ''c'' triangle)) \<and>
   map_option path_r (dijkstra (mk_cfg ''z'' ''c'' triangle)) = Some [] \<and>
   map_option (map currentNode \<circ> steps_r) (astar (mk_cfg ''z'' ''c'' triangle)) = Some [''z''] \<and>
   map_option visitedNodes_r (bfs (mk_cfg ''z'' ''c'' triangle)) = Some {''z''} \<and>
   map_option (length \<circ> steps_r) (dfs (mk_cfg ''z'' ''c'' triangle)) = Some 1"
proof -
  have h: "startNode (mk_cfg ''z'' ''c'' triangle) \<notin> node_ids (graph (mk_cfg ''z'' ''c'' triangle))"
    by (simp add: mk_cfg_def triangle_def node_ids_def mk_node_def)
  from missing_start_one_step[OF h] h show ?thesis
    by (simp add: missing_start_result_def mk_cfg_def make_step_def)
qed

theorem missing_start_counterexample:
  "map_option (map currentNode \<circ> steps_r) (dijkstra (mk_cfg ''z'' ''c'' triangle)) = Some [''z''] \<and>
   map_option (\<lambda>r. ''z'' \<in> visitedNodes_r r) (dijkstra (mk_cfg ''z'' ''c'' triangle)) = Some True"
  by code_simp

section \<open>Concrete runs\<close>

text \<open>
  Claim C1 at a concrete input. On the triangle graph with start \<open>a\<close> and end \<open>c\<close> the batch
  function \<open>dfs\<close> emits the single step for \<open>a\<close> and returns the empty path, whereas
  \<open>DFSStepByStep\<close>, initialised with the same config and stepped until \<open>null\<close>, emits steps
  for \<open>a\<close>, \<open>b\<close> and \<open>c\<close> and ends with the path \<open>[a, c]\<close>.
\<close>

theorem dfs_batch_differs_from_steps:
  "map_option (map currentNode \<circ> steps_r) (dfs (mk_cfg ''a'' ''c'' triangle)) = Some [''a''] \<and>
   map_option path_r (dfs (mk_cfg ''a'' ''c'' triangle)) = Some [] \<and>
   map_option (map currentNode) (run_F (init_F new_F (mk_cfg ''a'' ''c'' triangle)))
     = Some [''a'', ''b'', ''c''] \<and>
   map_option (path \<circ> last) (run_F (init_F new_F (mk_cfg ''a'' ''c'' triangle)))
     = Some [''a'', ''c'']"
  by code_simp

text \<open>
  Claim C4 at a concrete input. On the graph with the single node \<open>a\<close> and the edge
  \<open>a-z\<close>, whose endpoint \<open>z\<close> is not a node, \<open>bfs\<close> from \<open>a\<close> emits a PathStep whose current
  node is \<open>z\<close> and returns a visited set that contains \<open>z\<close>.
\<close>

theorem bfs_visits_dangling_endpoint:
  "''z'' \<notin> node_ids dangling \<and>
   map_option (map currentNode \<circ> steps_r) (bfs (mk_cfg ''a'' ''c'' dangling)) = Some [''a'', ''z''] \<and>
   map_option (\<lambda>r. ''z'' \<in> visitedNodes_r r) (bfs (mk_cfg ''a'' ''c'' dangling)) = Some True"
  by code_simp

section \<open>The step interface\<close>

lemma step_D_done: "complete_D s \<or> heap_isEmpty (pq_D s) \<Longrightarrow> step_D s = Some (None, s)"
  by (subst step_D.simps) (auto split: option.splits)

lemma step_A_done: "complete_A s \<or> heap_isEmpty (openSet_A s) \<Longrightarrow> step_A s = Some (None, s)"
  by (subst step_A.simps) (auto split: option.splits)

lemma step_B_done: "complete_B s \<or> queue_B s = [] \<Longrightarrow> step_B s = Some (None, s)"
  by (auto simp: step_B_def split: option.splits list.splits)

lemma step_F_done: "complete_F s \<or> stack_F s = [] \<Longrightarrow> step_F s = Some (None, s)"
  by (subst step_F.simps) (auto split: option.splits list.splits)

lemma call_n_fixed: "f s = Some (None, s) \<Longrightarrow> call_n f n s = Some (replicate n None, s)"
  by (induction n) auto

text \<open>
  Claim C9. Once an engine has terminated (its completion flag is set because the target
  was finalized, or its frontier is empty), any number \<open>n\<close> of further calls of \<open>step()\<close>
  return \<open>null\<close> each time and leave the whole state of the engine as it was.
\<close>

theorem step_past_completion:
  "(complete_D sD \<or> heap_isEmpty (pq_D sD)
      \<longrightarrow> call_n step_D n sD = Some (replicate n None, sD)) \<and>
   (complete_A sA \<or> heap_isEmpty (openSet_A sA)
      \<longrightarrow> call_n step_A n sA = Some (replicate n None, sA)) \<and>
   (complete_B sB \<or> queue_B sB = []
      \<longrightarrow> call_n step_B n sB = Some (replicate n None, sB)) \<and>
   (complete_F sF \<or> stack_F sF = []
      \<longrightarrow> call_n step_F n sF = Some (replicate n None, sF))"
  by (auto intro!: call_n_fixed step_D_done step_A_done step_B_done step_F_done)

theorem step_past_completion_witness:
  "complete_D (init_D new_D (mk_cfg ''a'' ''c'' triangle)\<lparr>complete_D := True\<rparr>) \<and>
   call_n step_D 2 (init_D new_D (mk_cfg ''a'' ''c'' triangle)\<lparr>complete_D := True\<rparr>)
     = Some ([None, None], init_D new_D (mk_cfg ''a'' ''c'' triangle)\<lparr>complete_D := True\<rparr>) \<and>
   heap_isEmpty (openSet_A new_A) \<and> call_n step_A 1 new_A = Some ([None], new_A) \<and>
   queue_B new_B = [] \<and> call_n step_B 1 new_B = Some ([None], new_B) \<and>
   stack_F new_F = [] \<and> call_n step_F 1 new_F = Some ([None], new_F)"
  using step_past_completion[of "init_D new_D (mk_cfg ''a'' ''c'' triangle)\<lparr>complete_D := True\<rparr>"
      2 new_A new_B new_F]
    step_past_completion[of new_D 1 new_A new_B new_F]
  by (simp add: new_A_def new_B_def new_F_def heap_isEmpty_def numeral_2_eq_2)

lemma step_D_complete:
  "step_D s = Some res \<Longrightarrow>
   config_D (snd res) = config_D s \<and>
   complete_rel (config_D s) (complete_D s) (fst res) (complete_D (snd res))"
proof (induction rule: step_D.raw_induct[rotated 1, consumes 1])
  case (1 f s res)
  from "1.hyps" show ?case
    by (auto split: option.splits if_splits prod.splits
        simp: heap_pop_None heap_isEmpty_def Let_def make_step_def neighbors_D_def complete_rel_def
        dest!: "1.IH")
qed

lemma step_A_complete:
  "step_A s = Some res \<Longrightarrow>
   config_A (snd res) = config_A s \<and>
   complete_rel (config_A s) (complete_A s) (fst res) (complete_A (snd res))"
proof (induction rule: step_A.raw_induct[rotated 1, consumes 1])
  case (1 f s res)
  from "1.hyps" show ?case
    by (auto split: option.splits if_splits prod.splits
        simp: heap_pop_None heap_isEmpty_def Let_def make_step_def neighbors_A_def complete_rel_def
        dest!: "1.IH")
qed

lemma step_B_complete:
  "step_B s = Some res \<Longrightarrow>
   config_B (snd res) = config_B s \<and>
   complete_rel (config_B s) (complete_B s) (fst res) (complete_B (snd res))"
  by (auto split: option.splits if_splits prod.splits list.splits
      simp: step_B_def Let_def make_step_def neighbors_B_def complete_rel_def)

lemma step_F_complete:
  "step_F s = Some res \<Longrightarrow>
   config_F (snd res) = config_F s \<and>
   complete_rel (config_F s) (complete_F s) (fst res) (complete_F (snd res))"
proof (induction rule: step_F.raw_induct[rotated 1, consumes 1])
  case (1 f s res)
  from "1.hyps" show ?case
    by (auto split: option.splits if_splits prod.splits list.splits
        simp: Let_def make_step_def neighbors_F_def complete_rel_def
        dest!: "1.IH")
qed

lemma call_n_complete:
  assumes step: "\<And>s res. f s = Some res \<Longrightarrow>
            conf (snd res) = conf s \<and> complete_rel (conf s) (compl s) (fst res) (compl (snd res))"
  shows "call_n f n s = Some (rs, s') \<Longrightarrow>
         conf s' = conf s \<and>
         (compl s' \<longleftrightarrow> compl s \<or>
            (\<exists>p cfg. Some p \<in> set rs \<and> conf s = Some cfg \<and> currentNode p = endNode cfg \<and> isComplete p))"
proof (induction n arbitrary: s rs s')
  case 0
  then show ?case by simp
next
  case (Suc n)
  from Suc.prems obtain r s1 rs1 where
    f: "f s = Some (r, s1)" and c: "call_n f n s1 = Some (rs1, s')" and rs: "rs = r # rs1"
    by (auto split: option.splits prod.splits)
  from step[OF f] have 1: "conf s1 = conf s" "complete_rel (conf s) (compl s) r (compl s1)"
    by auto
  from Suc.IH[OF c] 1 rs show ?case
    by (auto simp: complete_rel_def)
qed

text \<open>
  Claim C10. After any number of calls of \<open>step()\<close> on a freshly initialised engine,
  \<open>isComplete()\<close> is true exactly when one of those calls returned a PathStep that
  finalized the target node. On an engine whose frontier is empty and whose flag is not
  set, every further call returns \<open>null\<close> and leaves the state, and with it the flag,
  unchanged: \<open>isComplete()\<close> stays false.
\<close>

theorem isComplete_iff_target_finalized:
  "(call_n step_D n (init_D sD cfg) = Some (rs, sD') \<longrightarrow>
      (isComplete_D sD' \<longleftrightarrow> (\<exists>p. Some p \<in> set rs \<and> currentNode p = endNode cfg \<and> isComplete p))) \<and>
   (call_n step_A n (init_A sA cfg) = Some (rs, sA') \<longrightarrow>
      (isComplete_A sA' \<longleftrightarrow> (\<exists>p. Some p \<in> set rs \<and> currentNode p = endNode cfg \<and> isComplete p))) \<and>
   (call_n step_B n (init_B sB cfg) = Some (rs, sB') \<longrightarrow>
      (isComplete_B sB' \<longleftrightarrow> (\<exists>p. Some p \<in> set rs \<and> currentNode p = endNode cfg \<and> isComplete p))) \<and>
   (call_n step_F n (init_F sF cfg) = Some (rs, sF') \<longrightarrow>
      (isComplete_F sF' \<longleftrightarrow> (\<exists>p. Some p \<in> set rs \<and> currentNode p = endNode cfg \<and> isComplete p))) \<and>
   (heap_isEmpty (pq_D tD) \<and> \<not> isComplete_D tD \<longrightarrow>
      call_n step_D n tD = Some (replicate n None, tD)) \<and>
   (heap_isEmpty (openSet_A tA) \<and> \<not> isComplete_A tA \<longrightarrow>
      call_n step_A n tA = Some (replicate n None, tA)) \<and>
   (queue_B tB = [] \<and> \<not> isComplete_B tB \<longrightarrow>
      call_n step_B n tB = Some (replicate n None, tB)) \<and>
   (stack_F tF = [] \<and> \<not> isComplete_F tF \<longrightarrow>
      call_n step_F n tF = Some (replicate n None, tF))"
proof -
  have D: "isComplete_D sD' \<longleftrightarrow> (\<exists>p. Some p \<in> set rs \<and> currentNode p = endNode cfg \<and> isComplete p)"
    if "call_n step_D n (init_D sD cfg) = Some (rs, sD')"
    using call_n_complete[of step_D config_D complete_D, OF step_D_complete that]
    by (simp add: init_D_def isComplete_D_def)
  have A: "isComplete_A sA' \<longleftrightarrow> (\<exists>p. Some p \<in> set rs \<and> currentNode p = endNode cfg \<and> isComplete p)"
    if "call_n step_A n (init_A sA cfg) = Some (rs, sA')"
    using call_n_complete[of step_A config_A complete_A, OF step_A_complete that]
    by (simp add: init_A_def isComplete_A_def)
  have B: "isComplete_B sB' \<longleftrightarrow> (\<exists>p. Some p \<in> set rs \<and> currentNode p = endNode cfg \<and> isComplete p)"
    if "call_n step_B n (init_B sB cfg) = Some (rs, sB')"
    using call_n_complete[of step_B config_B complete_B, OF step_B_complete that]
    by (simp add: init_B_def isComplete_B_def)
  have F: "isComplete_F sF' \<longleftrightarrow> (\<exists>p. Some p \<in> set rs \<and> currentNode p = endNode cfg \<and> isComplete p)"
    if "call_n step_F n (init_F sF cfg) = Some (rs, sF')"
    using call_n_complete[of step_F config_F complete_F, OF step_F_complete that]
    by (simp add: init_F_def isComplete_F_def)
  from D A B F show ?thesis
    by (auto intro!: call_n_fixed step_D_done step_A_done step_B_done step_F_done)
qed


theorem isComplete_iff_target_finalized_witness:
  "(\<exists>rs s'. call_n step_D 3 (init_D new_D (mk_cfg ''a'' ''c'' triangle)) = Some (rs, s') \<and>
      isComplete_D s' \<and> (\<exists>p. Some p \<in> set rs \<and> currentNode p = ''c'' \<and> isComplete p)) \<and>
   (\<exists>rs s'. call_n step_F 1 (init_F new_F (mk_cfg ''a'' ''c'' triangle)) = Some (rs, s') \<and>
      \<not> isComplete_F s' \<and> \<not> (\<exists>p. Some p \<in> set rs \<and> currentNode p = ''c'' \<and> isComplete p)) \<and>
   heap_isEmpty (pq_D new_D) \<and> \<not> isComplete_D new_D \<and>
   call_n step_D 2 new_D = Some ([None, None], new_D) \<and>
   queue_B new_B = [] \<and> \<not> isComplete_B new_B \<and>
   call_n step_B 2 new_B = Some ([None, None], new_B)"
proof -
  let ?cfg = "mk_cfg ''a'' ''c'' triangle"
  have "map_option (isComplete_D \<circ> snd) (call_n step_D 3 (init_D new_D ?cfg)) = Some True"
    by code_simp
  then obtain rs s' where c: "call_n step_D 3 (init_D new_D ?cfg) = Some (rs, s')"
    and i: "isComplete_D s'" by auto
  from isComplete_iff_target_finalized[of 3 new_D ?cfg rs s'] c i
  have 1: "\<exists>p. Some p \<in> set rs \<and> currentNode p = ''c'' \<and> isComplete p"
    by (simp add: mk_cfg_def)
  have "map_option (isComplete_F \<circ> snd) (call_n step_F 1 (init_F new_F ?cfg)) = Some False"
    by code_simp
  then obtain rs2 s2 where c2: "call_n step_F 1 (init_F new_F ?cfg) = Some (rs2, s2)"
    and i2: "\<not> isComplete_F s2" by auto
  from isComplete_iff_target_finalized[of 1 _ ?cfg rs2 _ _ _ _ _ new_F s2] c2 i2
  have 2: "\<not> (\<exists>p. Some p \<in> set rs2 \<and> currentNode p = ''c'' \<and> isComplete p)"
    by (simp add: mk_cfg_def)
  have 3: "heap_isEmpty (pq_D new_D) \<and> \<not> isComplete_D new_D \<and> queue_B new_B = [] \<and> \<not> isComplete_B new_B"
    by (simp add: new_D_def new_B_def heap_isEmpty_def isComplete_D_def isComplete_B_def)
  with isComplete_iff_target_finalized[of 2 _ _ _ _ _ _ _ _ _ _ new_D _ new_B]
  have 4: "call_n step_D 2 new_D = Some ([None, None], new_D) \<and>
           call_n step_B 2 new_B = Some ([None, None], new_B)"
    by (simp add: numeral_2_eq_2)
  from c i 1 c2 i2 2 3 4 show ?thesis by blast
qed

lemma dijkstra_loop_iter:
  "dijkstra_loop cfg adj v =
     (case dijkstra_iter cfg adj v of
        None \<Rightarrow> None
      | Some (Inl v') \<Rightarrow> Some v'
      | Some (Inr v1) \<Rightarrow> dijkstra_loop cfg adj v1)"
  by (subst dijkstra_loop.simps)
     (simp add: dijkstra_iter_def Let_def split: option.splits prod.splits)

lemma while_total:
  fixes loop :: "'s \<Rightarrow> 's option" and iter :: "'s \<Rightarrow> ('s + 's) option"
  assumes unfold: "\<And>v. loop v = (case iter v of None \<Rightarrow> None | Some (Inl v') \<Rightarrow> Some v'
                                   | Some (Inr v1) \<Rightarrow> loop v1)"
    and wf: "wf R"
    and step: "\<And>v. I v \<Longrightarrow> (\<exists>v'. iter v = Some (Inl v') \<and> Q v') \<or>
                             (\<exists>v1. iter v = Some (Inr v1) \<and> I v1 \<and> (v1, v) \<in> R)"
  shows "I v0 \<Longrightarrow> \<exists>v'. loop v0 = Some v' \<and> Q v'"
  using wf
proof (induction v0 rule: wf_induct_rule)
  case (less v)
  from step[OF less.prems] show ?case
  proof
    assume "\<exists>v'. iter v = Some (Inl v') \<and> Q v'"
    then show ?thesis by (subst unfold) auto
  next
    assume "\<exists>v1. iter v = Some (Inr v1) \<and> I v1 \<and> (v1, v) \<in> R"
    then obtain v1 where 1: "iter v = Some (Inr v1)" "I v1" "(v1, v) \<in> R" by blast
    from less.IH[OF 1(3) 1(2)] obtain v' where "loop v1 = Some v'" "Q v'" by blast
    with 1(1) show ?thesis by (subst unfold) auto
  qed
qed

lemma reconstructPath_loop_wf:
  "wf (prel prev) \<Longrightarrow> \<exists>q. reconstructPath_loop prev s n acc = Some q"
proof (induction n arbitrary: acc rule: wf_induct_rule)
  case (less n)
  show ?case
  proof (cases "n = s \<or> get_or_null prev n = None")
    case True
    then show ?thesis by (subst reconstructPath_loop.simps) auto
  next
    case False
    then obtain p where p: "get_or_null prev n = Some p" by auto
    then have "(p, n) \<in> prel prev" by (simp add: prel_def)
    from less.IH[OF this] obtain q where "reconstructPath_loop prev s p (n # acc) = Some q" by blast
    with False p show ?thesis by (subst reconstructPath_loop.simps) auto
  qed
qed

lemma reconstructPath_wf: "wf (prel prev) \<Longrightarrow> \<exists>q. reconstructPath prev s n = Some q"
  using reconstructPath_loop_wf[of prev s n "[]"] by (auto simp: reconstructPath_def)

lemma get_or_null_upd:
  "get_or_null (prev(nb \<mapsto> Some cur)) n =
     (if n = nb then (if cur = [] then None else Some cur) else get_or_null prev n)"
  by (simp add: get_or_null_def)

lemma prel_update_subset: "prel (prev(nb \<mapsto> Some cur)) \<subseteq> insert (cur, nb) (prel prev)"
  by (auto simp: prel_def get_or_null_upd split: if_splits)

lemma wf_prel_update:
  assumes "wf (prel prev)" "fst ` prel prev \<subseteq> V" "nb \<notin> V" "cur \<in> V"
  shows "wf (prel (prev(nb \<mapsto> Some cur)))"
proof -
  have "(nb, cur) \<notin> (prel prev)\<^sup>*"
  proof
    assume "(nb, cur) \<in> (prel prev)\<^sup>*"
    then show False
    proof (cases rule: converse_rtranclE)
      case base
      with assms show ?thesis by simp
    next
      case (step z)
      from step(1) have "fst (nb, z) \<in> fst ` prel prev" by (rule imageI)
      with assms(2,3) show ?thesis by auto
    qed
  qed
  with assms(1) have "wf (insert (cur, nb) (prel prev))" by (simp add: wf_insert)
  then show ?thesis by (rule wf_subset) (rule prel_update_subset)
qed

lemma fst_prel_update:
  assumes "fst ` prel prev \<subseteq> V" "cur \<in> V"
  shows "fst ` prel (prev(nb \<mapsto> Some cur)) \<subseteq> V"
proof
  fix a assume "a \<in> fst ` prel (prev(nb \<mapsto> Some cur))"
  then obtain b where "(a, b) \<in> prel (prev(nb \<mapsto> Some cur))" by auto
  with prel_update_subset[of prev nb cur] have "(a, b) = (cur, nb) \<or> (a, b) \<in> prel prev" by blast
  with assms show "a \<in> V" by force
qed

lemma prel_init: "prel (init_previousNodes g) = {}"
  by (simp add: prel_def get_or_null_init)

lemma wf_frontier_measure: "wf (frontier_measure U d s)"
  unfolding frontier_measure_def by (intro wf_inv_image wf_lex_prod wf_less_than)

lemma frontier_measure_pop:
  "d v1 = d v \<Longrightarrow> s v1 < s v \<Longrightarrow> (v1, v) \<in> frontier_measure U d s"
  by (simp add: frontier_measure_def)

lemma frontier_measure_visit:
  assumes "finite U" "c \<in> U" "c \<notin> d v" "d v1 = insert c (d v)"
  shows "(v1, v) \<in> frontier_measure U d s"
proof -
  have "U - d v1 \<subset> U - d v" using assms by auto
  then have "card (U - d v1) < card (U - d v)"
    using assms(1) by (intro psubset_card_mono) auto
  then show ?thesis by (simp add: frontier_measure_def)
qed

lemma finite_universe: "finite (universe cfg)"
  by (simp add: universe_def endpoints_def)

lemma heap_pop_Some:
  "heap_pop h = Some (e, h') \<Longrightarrow> e \<in> set h \<and> set h' \<subseteq> set h \<and> length h = Suc (length h')"
proof (induction h arbitrary: e h' rule: heap_pop.induct)
  case 1
  then show ?case by simp
next
  case (2 a h)
  show ?case
  proof (cases "heap_pop h")
    case None
    with "2.prems" show ?thesis by (auto simp: heap_pop_None)
  next
    case (Some r)
    obtain m h1 where r: "r = (m, h1)" by (cases r)
    from "2.IH"[of m h1] Some r have IH: "m \<in> set h" "set h1 \<subseteq> set h" "length h = Suc (length h1)"
      by auto
    with "2.prems" Some r show ?thesis by (auto split: if_splits)
  qed
qed

lemma foldl_inv:
  "P s \<Longrightarrow> (\<And>s x. P s \<Longrightarrow> x \<in> set xs \<Longrightarrow> P (f s x)) \<Longrightarrow> P (foldl f s xs)"
  by (induction xs arbitrary: s) auto

lemma add_edge_apply:
  "add_edge adj e k = (case adj k of None \<Rightarrow> None | Some l \<Rightarrow> Some (l @ contrib k e))"
  by (auto simp: add_edge_def contrib_def Let_def split: option.splits)

lemma foldl_add_edge_apply:
  "foldl add_edge adj es k =
     (case adj k of None \<Rightarrow> None | Some l \<Rightarrow> Some (l @ concat (map (contrib k) es)))"
  by (induction es arbitrary: adj) (auto simp: add_edge_apply split: option.splits)

lemma neighbors_of_build_adjacency:
  "neighbors_of (build_adjacency g) k =
     (if k \<in> node_ids g then concat (map (contrib k) (edges g)) else [])"
  by (simp add: neighbors_of_def build_adjacency_def foldl_add_edge_apply foldl_null_apply node_ids_def)

lemma neighbors_in_endpoints:
  "nb \<in> set (neighbors_of (build_adjacency g) k) \<Longrightarrow> fst nb \<in> endpoints g"
  by (auto simp: neighbors_of_build_adjacency contrib_def endpoints_def split: if_splits)

lemma prel_update_fst:
  "(a, b) \<in> prel (prev(nb \<mapsto> Some cur)) \<Longrightarrow> fst ` prel prev \<subseteq> V \<Longrightarrow> cur \<in> V \<Longrightarrow> a \<in> V"
  using fst_prel_update[of prev V cur nb] by force

lemma dijkstra_relax_eq:
  "dijkstra_relax V cur (dists, prev, pq) (n, w) =
     (if n \<notin> V \<and> js_lt (js_add (dists cur) w) (dists n)
      then (dists(n := js_add (dists cur) w), prev(n \<mapsto> Some cur),
            pq @ [(js_add (dists cur) w, n)])
      else (dists, prev, pq))"
  by (simp add: dijkstra_relax_def Let_def heap_push_def)

lemma relax_ok_update:
  assumes "relax_ok V U prev N" "n \<notin> V" "cur \<in> V" "n \<in> U"
  shows "relax_ok V U (prev(n \<mapsto> Some cur)) (insert n N)"
  using assms wf_prel_update[of prev V n cur] fst_prel_update[of prev V cur n]
  by (simp add: relax_ok_def)

lemma dijkstra_relax_ok:
  assumes "cur \<in> V" "fst nb \<in> U"
    and "relax_ok V U (fst (snd st)) (snd ` set (snd (snd st)))"
  shows "relax_ok V U (fst (snd (dijkstra_relax V cur st nb)))
           (snd ` set (snd (snd (dijkstra_relax V cur st nb))))"
proof -
  obtain dists prev pq where st: "st = (dists, prev, pq)" by (cases st)
  obtain n w where nb: "nb = (n, w)" by (cases nb)
  show ?thesis
  proof (cases "n \<notin> V \<and> js_lt (js_add (dists cur) w) (dists n)")
    case True
    with relax_ok_update[of V U prev "snd ` set pq" n cur] assms
    show ?thesis unfolding st nb by (simp add: dijkstra_relax_eq)
  next
    case False
    then have "dijkstra_relax V cur (dists, prev, pq) (n, w) = (dists, prev, pq)"
      by (simp only: dijkstra_relax_eq if_False)
    with assms(3) show ?thesis unfolding st nb by simp
  qed
qed

lemma dijkstra_iter_empty: "pq_d v = [] \<Longrightarrow> dijkstra_iter cfg adj v = Some (Inl v)"
  by (simp add: dijkstra_iter_def heap_isEmpty_def)

lemma dijkstra_iter_skip:
  "heap_pop (pq_d v) = Some (current, pq') \<Longrightarrow> snd current \<in> visitedNodes_d v \<Longrightarrow>
   dijkstra_iter cfg adj v = Some (Inr (v\<lparr>pq_d := pq'\<rparr>))"
  by (auto simp: dijkstra_iter_def heap_isEmpty_def)

lemma dijkstra_iter_visit:
  "heap_pop (pq_d v) = Some (current, pq') \<Longrightarrow> snd current \<notin> visitedNodes_d v \<Longrightarrow>
   reconstructPath (previousNodes_d v) (startNode cfg) (snd current) = Some p \<Longrightarrow>
   dijkstra_iter cfg adj v =
     (if snd current = endNode cfg then Some (Inl (dijkstra_visit cfg v (snd current) pq' p))
      else if js_gt (fst current) (distances_d v (snd current))
        then Some (Inr (dijkstra_visit cfg v (snd current) pq' p))
      else Some (Inr (dijkstra_neighbors adj (snd current) (dijkstra_visit cfg v (snd current) pq' p))))"
  by (auto simp: dijkstra_iter_def heap_isEmpty_def dijkstra_visit_def Let_def)

lemma dijkstra_neighbors_fields:
  "steps_d (dijkstra_neighbors adj cur v) = steps_d v"
  "visitedNodes_d (dijkstra_neighbors adj cur v) = visitedNodes_d v"
  by (simp_all add: dijkstra_neighbors_def split: prod.splits)

lemma dijkstra_neighbors_ok:
  assumes "cur \<in> visitedNodes_d v"
    and "relax_ok (visitedNodes_d v) U (previousNodes_d v) (snd ` set (pq_d v))"
    and "\<forall>nb \<in> set (neighbors_of adj cur). fst nb \<in> U"
  shows "relax_ok (visitedNodes_d v) U
           (previousNodes_d (dijkstra_neighbors adj cur v))
           (snd ` set (pq_d (dijkstra_neighbors adj cur v)))"
proof -
  let ?f = "foldl (dijkstra_relax (visitedNodes_d v) cur)
              (distances_d v, previousNodes_d v, pq_d v) (neighbors_of adj cur)"
  have "relax_ok (visitedNodes_d v) U (fst (snd ?f)) (snd ` set (snd (snd ?f)))"
    by (rule foldl_inv[where P = "\<lambda>st. relax_ok (visitedNodes_d v) U (fst (snd st))
                                         (snd ` set (snd (snd st)))"])
       (use assms in \<open>auto intro: dijkstra_relax_ok\<close>)
  moreover obtain a b c where "?f = (a, b, c)" by (cases ?f)
  ultimately show ?thesis
    by (simp add: dijkstra_neighbors_def)
qed

lemma steps_ok_append:
  assumes "steps_ok stps" "\<forall>st \<in> set stps. visitedNodes st \<subseteq> visitedNodes new"
    and "currentNode new \<notin> currentNode ` set stps"
  shows "steps_ok (stps @ [new])"
  using assms by (auto simp: steps_ok_def sorted_wrt_append)

lemma dijkstra_visit_inv:
  assumes inv: "dijkstra_inv cfg v"
    and pop: "heap_pop (pq_d v) = Some (current, pq')"
    and nv: "snd current \<notin> visitedNodes_d v"
  shows "dijkstra_inv cfg (dijkstra_visit cfg v (snd current) pq' p)"
proof -
  let ?cur = "snd current"
  let ?v' = "dijkstra_visit cfg v ?cur pq' p"
  from heap_pop_Some[OF pop] have h: "current \<in> set (pq_d v)" "set pq' \<subseteq> set (pq_d v)" by auto
  from inv have i: "steps_ok (steps_d v)" "currentNode ` set (steps_d v) = visitedNodes_d v"
    "\<forall>st \<in> set (steps_d v). visitedNodes st \<subseteq> visitedNodes_d v"
    "snd ` set (pq_d v) \<subseteq> universe cfg" "visitedNodes_d v \<subseteq> universe cfg"
    "wf (prel (previousNodes_d v))" "fst ` prel (previousNodes_d v) \<subseteq> visitedNodes_d v"
    by (simp_all add: dijkstra_inv_def)
  from h(1) i(4) have cu: "?cur \<in> universe cfg" by auto
  have "\<forall>st \<in> set (steps_d v). visitedNodes st \<subseteq> insert ?cur (visitedNodes_d v)"
    using i(3) by blast
  moreover have "?cur \<notin> currentNode ` set (steps_d v)" using i(2) nv by simp
  ultimately have 1: "steps_ok (steps_d ?v')"
    unfolding dijkstra_visit_def using i(1)
    by (simp add: make_step_def steps_ok_append)
  have 2: "currentNode ` set (steps_d ?v') = visitedNodes_d ?v'"
    using i(2) by (auto simp: dijkstra_visit_def make_step_def)
  have 3: "\<forall>st \<in> set (steps_d ?v'). visitedNodes st \<subseteq> visitedNodes_d ?v'"
    using i(3) by (auto simp: dijkstra_visit_def make_step_def)
  have 4: "snd ` set (pq_d ?v') \<subseteq> universe cfg"
    using i(4) h(2) unfolding dijkstra_visit_def by simp (meson image_mono subset_trans)
  have 5: "visitedNodes_d ?v' \<subseteq> universe cfg"
    using i(5) cu by (auto simp: dijkstra_visit_def)
  have 6: "wf (prel (previousNodes_d ?v'))" using i(6) by (simp add: dijkstra_visit_def)
  have 7: "fst ` prel (previousNodes_d ?v') \<subseteq> visitedNodes_d ?v'"
    using i(7) by (auto simp: dijkstra_visit_def)
  from 1 2 3 4 5 6 7 show ?thesis unfolding dijkstra_inv_def by blast
qed

lemma dijkstra_neighbors_inv:
  assumes inv: "dijkstra_inv cfg v" and cur: "cur \<in> visitedNodes_d v"
  shows "dijkstra_inv cfg (dijkstra_neighbors (build_adjacency (graph cfg)) cur v)"
proof -
  let ?adj = "build_adjacency (graph cfg)"
  from inv have ok: "relax_ok (visitedNodes_d v) (universe cfg) (previousNodes_d v)
      (snd ` set (pq_d v))"
    by (simp add: dijkstra_inv_def relax_ok_def)
  have nb: "\<forall>nb \<in> set (neighbors_of ?adj cur). fst nb \<in> universe cfg"
    using neighbors_in_endpoints by (auto simp: universe_def)
  from dijkstra_neighbors_ok[OF cur ok nb] inv show ?thesis
    by (simp add: dijkstra_inv_def relax_ok_def dijkstra_neighbors_fields)
qed

lemma dijkstra_iter_step:
  assumes inv: "dijkstra_inv cfg v"
  shows "(\<exists>v'. dijkstra_iter cfg (build_adjacency (graph cfg)) v = Some (Inl v') \<and> dijkstra_inv cfg v') \<or>
         (\<exists>v1. dijkstra_iter cfg (build_adjacency (graph cfg)) v = Some (Inr v1) \<and>
               dijkstra_inv cfg v1 \<and> (v1, v) \<in> dijkstra_measure cfg)"
proof (cases "pq_d v = []")
  case True
  with inv show ?thesis by (simp add: dijkstra_iter_empty)
next
  case False
  let ?adj = "build_adjacency (graph cfg)"
  from False obtain current pq' where pop: "heap_pop (pq_d v) = Some (current, pq')"
    using heap_pop_None[of "pq_d v"] by (cases "heap_pop (pq_d v)") auto
  from heap_pop_Some[OF pop] have h: "current \<in> set (pq_d v)" "set pq' \<subseteq> set (pq_d v)"
    "length (pq_d v) = Suc (length pq')" by auto
  let ?cur = "snd current"
  show ?thesis
  proof (cases "?cur \<in> visitedNodes_d v")
    case True
    from inv h(2) have "snd ` set pq' \<subseteq> universe cfg"
      unfolding dijkstra_inv_def by (meson image_mono subset_trans)
    with inv have "dijkstra_inv cfg (v\<lparr>pq_d := pq'\<rparr>)"
      by (simp add: dijkstra_inv_def)
    moreover have "(v\<lparr>pq_d := pq'\<rparr>, v) \<in> dijkstra_measure cfg"
      using h(3) by (intro frontier_measure_pop) auto
    ultimately show ?thesis using dijkstra_iter_skip[OF pop True] by simp
  next
    case nv: False
    from inv have "wf (prel (previousNodes_d v))" by (simp add: dijkstra_inv_def)
    from reconstructPath_wf[OF this] obtain p where
      p: "reconstructPath (previousNodes_d v) (startNode cfg) ?cur = Some p" by blast
    let ?v' = "dijkstra_visit cfg v ?cur pq' p"
    note it = dijkstra_iter_visit[OF pop nv p, of ?adj]
    have inv': "dijkstra_inv cfg ?v'" by (rule dijkstra_visit_inv[OF inv pop nv])
    from inv h(1) have cu: "?cur \<in> universe cfg" by (auto simp: dijkstra_inv_def)
    have m: "(?v', v) \<in> dijkstra_measure cfg"
      by (rule frontier_measure_visit[where d = visitedNodes_d and c = ?cur, OF finite_universe cu nv])
         (simp add: dijkstra_visit_def)
    have cv: "?cur \<in> visitedNodes_d ?v'" by (simp add: dijkstra_visit_def)
    have inv'': "dijkstra_inv cfg (dijkstra_neighbors ?adj ?cur ?v')"
      by (rule dijkstra_neighbors_inv[OF inv' cv])
    have m': "(dijkstra_neighbors ?adj ?cur ?v', v) \<in> dijkstra_measure cfg"
      by (rule frontier_measure_visit[where d = visitedNodes_d and c = ?cur, OF finite_universe cu nv])
         (simp add: dijkstra_neighbors_fields dijkstra_visit_def)
    from it inv' inv'' m m' show ?thesis by auto
  qed
qed

lemma dijkstra_init_inv: "dijkstra_inv cfg (dijkstra_init cfg)"
  by (simp add: dijkstra_inv_def dijkstra_init_def steps_ok_def heap_push_def universe_def prel_init)

lemma dijkstra_loop_total:
  "\<exists>v. dijkstra_loop cfg (build_adjacency (graph cfg)) (dijkstra_init cfg) = Some v \<and> dijkstra_inv cfg v"
  by (rule while_total[where I = "dijkstra_inv cfg" and R = "dijkstra_measure cfg",
        OF dijkstra_loop_iter wf_frontier_measure dijkstra_iter_step dijkstra_init_inv])

lemma dijkstra_total:
  "\<exists>r. dijkstra cfg = Some r \<and> steps_ok (steps_r r)"
proof -
  from dijkstra_loop_total[of cfg] obtain v where
    v: "dijkstra_loop cfg (build_adjacency (graph cfg)) (dijkstra_init cfg) = Some v"
    and inv: "dijkstra_inv cfg v" by blast
  from inv have "wf (prel (previousNodes_d v))" by (simp add: dijkstra_inv_def)
  from reconstructPath_wf[OF this] obtain p where
    "reconstructPath (previousNodes_d v) (startNode cfg) (endNode cfg) = Some p" by blast
  with v inv show ?thesis
    by (simp add: dijkstra_def dijkstra_init_def[symmetric] dijkstra_inv_def)
qed

lemma astar_loop_iter:
  "astar_loop cfg adj v =
     (case astar_iter cfg adj v of
        None \<Rightarrow> None
      | Some (Inl v') \<Rightarrow> Some v'
      | Some (Inr v1) \<Rightarrow> astar_loop cfg adj v1)"
  by (subst astar_loop.simps)
     (simp add: astar_iter_def astar_visit_def Let_def heap_isEmpty_def heap_pop_None
           split: option.splits prod.splits)

lemma astar_iter_visit:
  "heap_pop (openSet_a v) = Some (current, opn') \<Longrightarrow> snd current \<notin> visitedNodes_a v \<Longrightarrow>
   reconstructPath (previousNodes_a v) (startNode cfg) (snd current) = Some p \<Longrightarrow>
   astar_iter cfg adj v =
     (if snd current = endNode cfg then Some (Inl (astar_visit cfg v (snd current) opn' p))
      else if js_gt (fst current) (fScore_a v (snd current))
        then Some (Inr (astar_visit cfg v (snd current) opn' p))
      else Some (Inr (astar_neighbors cfg adj (snd current) (astar_visit cfg v (snd current) opn' p))))"
  by (simp add: astar_iter_def)

lemma astar_relax_eq:
  "astar_relax cfg V cur (g, f, prev, opn) (n, w) =
     (if n \<notin> V \<and> js_lt (js_add (g cur) w) (g n)
      then (g(n := js_add (g cur) w),
            f(n := js_add (js_add (g cur) w) (heuristic n (endNode cfg) (graph cfg))),
            prev(n \<mapsto> Some cur),
            opn @ [(js_add (js_add (g cur) w) (heuristic n (endNode cfg) (graph cfg)), n)])
      else (g, f, prev, opn))"
  by (simp add: astar_relax_def Let_def heap_push_def)

lemma astar_relax_ok:
  assumes "cur \<in> V" "fst nb \<in> U"
    and "relax_ok V U (fst (snd (snd st))) (snd ` set (snd (snd (snd st))))"
  shows "relax_ok V U (fst (snd (snd (astar_relax cfg V cur st nb))))
           (snd ` set (snd (snd (snd (astar_relax cfg V cur st nb)))))"
proof -
  obtain g f prev opn where st: "st = (g, f, prev, opn)" by (cases st)
  obtain n w where nb: "nb = (n, w)" by (cases nb)
  show ?thesis
  proof (cases "n \<notin> V \<and> js_lt (js_add (g cur) w) (g n)")
    case True
    with relax_ok_update[of V U prev "snd ` set opn" n cur] assms
    show ?thesis unfolding st nb by (simp add: astar_relax_eq)
  next
    case False
    then have "astar_relax cfg V cur (g, f, prev, opn) (n, w) = (g, f, prev, opn)"
      by (simp only: astar_relax_eq if_False)
    with assms(3) show ?thesis unfolding st nb by simp
  qed
qed

lemma astar_neighbors_fields:
  "steps_a (astar_neighbors cfg adj cur v) = steps_a v"
  "visitedNodes_a (astar_neighbors cfg adj cur v) = visitedNodes_a v"
  by (simp_all add: astar_neighbors_def split: prod.splits)

lemma astar_neighbors_ok:
  assumes "cur \<in> visitedNodes_a v"
    and "relax_ok (visitedNodes_a v) U (previousNodes_a v) (snd ` set (openSet_a v))"
    and "\<forall>nb \<in> set (neighbors_of adj cur). fst nb \<in> U"
  shows "relax_ok (visitedNodes_a v) U
           (previousNodes_a (astar_neighbors cfg adj cur v))
           (snd ` set (openSet_a (astar_neighbors cfg adj cur v)))"
proof -
  let ?f = "foldl (astar_relax cfg (visitedNodes_a v) cur)
              (gScore_a v, fScore_a v, previousNodes_a v, openSet_a v) (neighbors_of adj cur)"
  have "relax_ok (visitedNodes_a v) U (fst (snd (snd ?f))) (snd ` set (snd (snd (snd ?f))))"
    by (rule foldl_inv[where P = "\<lambda>st. relax_ok (visitedNodes_a v) U (fst (snd (snd st)))
                                         (snd ` set (snd (snd (snd st))))"])
       (use assms in \<open>auto intro: astar_relax_ok\<close>)
  moreover obtain a b c d where "?f = (a, b, c, d)" by (cases ?f)
  ultimately show ?thesis
    by (simp add: astar_neighbors_def)
qed

lemma relax_ok_mono:
  "relax_ok V U prev N \<Longrightarrow> N' \<subseteq> N \<Longrightarrow> V \<subseteq> V' \<Longrightarrow> relax_ok V' U prev N'"
  by (auto simp: relax_ok_def)

lemma astar_visit_inv:
  assumes inv: "astar_inv cfg v"
    and pop: "heap_pop (openSet_a v) = Some (current, opn')"
    and nv: "snd current \<notin> visitedNodes_a v"
  shows "astar_inv cfg (astar_visit cfg v (snd current) opn' p)"
proof -
  let ?cur = "snd current"
  let ?v' = "astar_visit cfg v ?cur opn' p"
  from heap_pop_Some[OF pop] have h: "current \<in> set (openSet_a v)" "set opn' \<subseteq> set (openSet_a v)"
    by auto
  from inv have i: "steps_ok (steps_a v)" "currentNode ` set (steps_a v) = visitedNodes_a v"
    "\<forall>st \<in> set (steps_a v). visitedNodes st \<subseteq> visitedNodes_a v"
    "visitedNodes_a v \<subseteq> universe cfg"
    "relax_ok (visitedNodes_a v) (universe cfg) (previousNodes_a v) (snd ` set (openSet_a v))"
    by (simp_all add: astar_inv_def)
  from h(1) i(5) have cu: "?cur \<in> universe cfg" by (auto simp: relax_ok_def)
  have "\<forall>st \<in> set (steps_a v). visitedNodes st \<subseteq> insert ?cur (visitedNodes_a v)"
    using i(3) by blast
  moreover have "?cur \<notin> currentNode ` set (steps_a v)" using i(2) nv by simp
  ultimately have 1: "steps_ok (steps_a ?v')"
    unfolding astar_visit_def using i(1)
    by (simp add: make_step_def steps_ok_append)
  have 2: "currentNode ` set (steps_a ?v') = visitedNodes_a ?v'"
    using i(2) by (auto simp: astar_visit_def make_step_def)
  have 3: "\<forall>st \<in> set (steps_a ?v'). visitedNodes st \<subseteq> visitedNodes_a ?v'"
    using i(3) by (auto simp: astar_visit_def make_step_def)
  have 4: "visitedNodes_a ?v' \<subseteq> universe cfg"
    using i(4) cu by (auto simp: astar_visit_def)
  have "snd ` set opn' \<subseteq> snd ` set (openSet_a v)" using h(2) by (rule image_mono)
  from relax_ok_mono[OF i(5) this, of "insert ?cur (visitedNodes_a v)"]
  have 5: "relax_ok (visitedNodes_a ?v') (universe cfg) (previousNodes_a ?v')
             (snd ` set (openSet_a ?v'))"
    by (auto simp: astar_visit_def)
  from 1 2 3 4 5 show ?thesis unfolding astar_inv_def by blast
qed

lemma astar_neighbors_inv:
  assumes inv: "astar_inv cfg v" and cur: "cur \<in> visitedNodes_a v"
  shows "astar_inv cfg (astar_neighbors cfg (build_adjacency (graph cfg)) cur v)"
proof -
  let ?adj = "build_adjacency (graph cfg)"
  from inv have ok: "relax_ok (visitedNodes_a v) (universe cfg) (previousNodes_a v)
      (snd ` set (openSet_a v))"
    by (simp add: astar_inv_def)
  have nb: "\<forall>nb \<in> set (neighbors_of ?adj cur). fst nb \<in> universe cfg"
    using neighbors_in_endpoints by (auto simp: universe_def)
  from astar_neighbors_ok[OF cur ok nb] inv show ?thesis
    by (simp add: astar_inv_def astar_neighbors_fields)
qed

lemma astar_iter_step:
  assumes inv: "astar_inv cfg v"
  shows "(\<exists>v'. astar_iter cfg (build_adjacency (graph cfg)) v = Some (Inl v') \<and> astar_inv cfg v') \<or>
         (\<exists>v1. astar_iter cfg (build_adjacency (graph cfg)) v = Some (Inr v1) \<and>
               astar_inv cfg v1 \<and> (v1, v) \<in> astar_measure cfg)"
proof (cases "heap_pop (openSet_a v)")
  case None
  with inv show ?thesis by (simp add: astar_iter_def)
next
  case (Some r)
  let ?adj = "build_adjacency (graph cfg)"
  obtain current opn' where r: "r = (current, opn')" by (cases r)
  with Some have pop: "heap_pop (openSet_a v) = Some (current, opn')" by simp
  from heap_pop_Some[OF pop] have h: "current \<in> set (openSet_a v)"
    "set opn' \<subseteq> set (openSet_a v)" "length (openSet_a v) = Suc (length opn')" by auto
  let ?cur = "snd current"
  show ?thesis
  proof (cases "?cur \<in> visitedNodes_a v")
    case True
    have "snd ` set opn' \<subseteq> snd ` set (openSet_a v)" using h(2) by (rule image_mono)
    with inv have "astar_inv cfg (v\<lparr>openSet_a := opn'\<rparr>)"
      by (auto simp: astar_inv_def intro: relax_ok_mono)
    moreover have "(v\<lparr>openSet_a := opn'\<rparr>, v) \<in> astar_measure cfg"
      using h(3) by (intro frontier_measure_pop) auto
    ultimately show ?thesis using pop True by (simp add: astar_iter_def)
  next
    case nv: False
    from inv have "wf (prel (previousNodes_a v))" by (simp add: astar_inv_def relax_ok_def)
    from reconstructPath_wf[OF this] obtain p where
      p: "reconstructPath (previousNodes_a v) (startNode cfg) ?cur = Some p" by blast
    let ?v' = "astar_visit cfg v ?cur opn' p"
    note it = astar_iter_visit[OF pop nv p, of ?adj]
    have inv': "astar_inv cfg ?v'" by (rule astar_visit_inv[OF inv pop nv])
    from inv h(1) have cu: "?cur \<in> universe cfg" by (auto simp: astar_inv_def relax_ok_def)
    have m: "(?v', v) \<in> astar_measure cfg"
      by (rule frontier_measure_visit[where d = visitedNodes_a and c = ?cur, OF finite_universe cu nv])
         (simp add: astar_visit_def)
    have cv: "?cur \<in> visitedNodes_a ?v'" by (simp add: astar_visit_def)
    have inv'': "astar_inv cfg (astar_neighbors cfg ?adj ?cur ?v')"
      by (rule astar_neighbors_inv[OF inv' cv])
    have m': "(astar_neighbors cfg ?adj ?cur ?v', v) \<in> astar_measure cfg"
      by (rule frontier_measure_visit[where d = visitedNodes_a and c = ?cur, OF finite_universe cu nv])
         (simp add: astar_neighbors_fields astar_visit_def)
    from it inv' inv'' m m' show ?thesis by auto
  qed
qed

lemma astar_init_inv: "astar_inv cfg (astar_init cfg)"
  by (simp add: astar_inv_def astar_init_def steps_ok_def heap_push_def universe_def prel_init
      relax_ok_def)

lemma astar_loop_total:
  "\<exists>v. astar_loop cfg (build_adjacency (graph cfg)) (astar_init cfg) = Some v \<and> astar_inv cfg v"
  by (rule while_total[where I = "astar_inv cfg" and R = "astar_measure cfg",
        OF astar_loop_iter wf_frontier_measure astar_iter_step astar_init_inv])

lemma astar_total:
  "\<exists>r. astar cfg = Some r \<and> steps_ok (steps_r r)"
proof -
  from astar_loop_total[of cfg] obtain v where
    v: "astar_loop cfg (build_adjacency (graph cfg)) (astar_init cfg) = Some v"
    and inv: "astar_inv cfg v" by blast
  from inv have "wf (prel (previousNodes_a v))" by (simp add: astar_inv_def relax_ok_def)
  from reconstructPath_wf[OF this] obtain p where
    "reconstructPath (previousNodes_a v) (startNode cfg) (endNode cfg) = Some p" by blast
  with v inv show ?thesis
    by (simp add: astar_def astar_init_def[symmetric] astar_inv_def)
qed

lemma add_edge_ids_apply:
  "add_edge_ids adj e k = (case adj k of None \<Rightarrow> None | Some l \<Rightarrow> Some (l @ contrib_ids k e))"
  by (auto simp: add_edge_ids_def contrib_ids_def Let_def split: option.splits)

lemma foldl_add_edge_ids_apply:
  "foldl add_edge_ids adj es k =
     (case adj k of None \<Rightarrow> None | Some l \<Rightarrow> Some (l @ concat (map (contrib_ids k) es)))"
  by (induction es arbitrary: adj) (auto simp: add_edge_ids_apply split: option.splits)

lemma neighbors_of_build_adjacency_ids:
  "neighbors_of (build_adjacency_ids g) k =
     (if k \<in> node_ids g then concat (map (contrib_ids k) (edges g)) else [])"
  by (simp add: neighbors_of_def build_adjacency_ids_def foldl_add_edge_ids_apply foldl_null_apply
      node_ids_def)

lemma neighbor_ids_in_endpoints:
  "nb \<in> set (neighbors_of (build_adjacency_ids g) k) \<Longrightarrow> nb \<in> endpoints g"
  by (auto simp: neighbors_of_build_adjacency_ids contrib_ids_def endpoints_def split: if_splits)

lemma bfs_loop_iter:
  "bfs_loop cfg adj v =
     (case bfs_iter cfg adj v of
        None \<Rightarrow> None
      | Some (Inl v') \<Rightarrow> Some v'
      | Some (Inr v1) \<Rightarrow> bfs_loop cfg adj v1)"
  by (subst bfs_loop.simps)
     (simp add: bfs_iter_def bfs_visit_def Let_def split: option.splits list.splits)

lemma bfs_relax_eq:
  "bfs_relax cur (visited, prev, queue) n =
     (if n \<notin> visited then (insert n visited, prev(n \<mapsto> Some cur), queue @ [n])
      else (visited, prev, queue))"
  by (simp add: bfs_relax_def)

lemma bfs_relax_ok:
  assumes "cur \<in> E" "nb \<in> U" "bfs_fold_ok E U V0 st"
  shows "bfs_fold_ok E U V0 (bfs_relax cur st nb)"
proof -
  obtain visited prev queue where st: "st = (visited, prev, queue)" by (cases st)
  from assms(3) have ok: "E \<inter> set queue = {}" "distinct queue" "E \<union> set queue = visited"
    "V0 \<subseteq> visited" "visited \<subseteq> U" "wf (prel prev)" "fst ` prel prev \<subseteq> E"
    by (simp_all add: bfs_fold_ok_def st)
  show ?thesis
  proof (cases "nb \<in> visited")
    case True
    with assms(3) show ?thesis by (simp add: st bfs_relax_eq)
  next
    case False
    with ok(3) have ne: "nb \<notin> E" "nb \<notin> set queue" by auto
    from wf_prel_update[OF ok(6,7) ne(1) assms(1)] fst_prel_update[OF ok(7) assms(1), of nb]
    have "wf (prel (prev(nb \<mapsto> Some cur)))" "fst ` prel (prev(nb \<mapsto> Some cur)) \<subseteq> E" by auto
    with ok ne assms(2) False show ?thesis
      by (auto simp: st bfs_relax_eq bfs_fold_ok_def)
  qed
qed

lemma bfs_neighbors_steps: "steps_b (bfs_neighbors adj cur v) = steps_b v"
  by (simp add: bfs_neighbors_def split: prod.splits)

lemma bfs_neighbors_ok:
  assumes "cur \<in> E" "\<forall>nb \<in> set (neighbors_of adj cur). nb \<in> U"
    and "bfs_fold_ok E U V0 (visitedNodes_b v, previousNodes_b v, queue_b v)"
  shows "bfs_fold_ok E U V0
           (visitedNodes_b (bfs_neighbors adj cur v), previousNodes_b (bfs_neighbors adj cur v),
            queue_b (bfs_neighbors adj cur v))"
proof -
  let ?f = "foldl (bfs_relax cur) (visitedNodes_b v, previousNodes_b v, queue_b v)
              (neighbors_of adj cur)"
  have "bfs_fold_ok E U V0 ?f"
    by (rule foldl_inv[where P = "bfs_fold_ok E U V0"])
       (use assms in \<open>auto intro: bfs_relax_ok\<close>)
  moreover obtain a b c where "?f = (a, b, c)" by (cases ?f)
  ultimately show ?thesis
    by (simp add: bfs_neighbors_def)
qed

lemma bfs_iter_step:
  assumes inv: "bfs_inv cfg v"
  shows "(\<exists>v'. bfs_iter cfg (build_adjacency_ids (graph cfg)) v = Some (Inl v') \<and> bfs_inv cfg v') \<or>
         (\<exists>v1. bfs_iter cfg (build_adjacency_ids (graph cfg)) v = Some (Inr v1) \<and>
               bfs_inv cfg v1 \<and> (v1, v) \<in> bfs_measure cfg)"
proof (cases "queue_b v")
  case Nil
  with inv show ?thesis by (simp add: bfs_iter_def)
next
  case (Cons cur queue')
  let ?adj = "build_adjacency_ids (graph cfg)"
  let ?E = "currentNode ` set (steps_b v)"
  from inv Cons have i: "steps_ok (steps_b v)"
    "\<forall>st \<in> set (steps_b v). visitedNodes st \<subseteq> visitedNodes_b v"
    "?E \<inter> set (cur # queue') = {}" "distinct (cur # queue')"
    "?E \<union> set (cur # queue') = visitedNodes_b v"
    "visitedNodes_b v \<subseteq> universe cfg" "wf (prel (previousNodes_b v))"
    "fst ` prel (previousNodes_b v) \<subseteq> ?E"
    by (simp_all add: bfs_inv_def bfs_fold_ok_def)
  from reconstructPath_wf[OF i(7)] obtain p where
    p: "reconstructPath (previousNodes_b v) (startNode cfg) cur = Some p" by blast
  let ?v' = "bfs_visit cfg v cur queue' p"
  let ?E' = "currentNode ` set (steps_b ?v')"
  have E': "?E' = insert cur ?E" by (auto simp: bfs_visit_def make_step_def)
  from i(3) have ce: "cur \<notin> ?E" by auto
  from i(5,6) have cu: "cur \<in> universe cfg" by auto
  have 1: "steps_ok (steps_b ?v')"
    unfolding bfs_visit_def using i(1,2) ce
    by (simp add: make_step_def steps_ok_append)
  have 2: "\<forall>st \<in> set (steps_b ?v'). visitedNodes st \<subseteq> visitedNodes_b ?v'"
    using i(2) by (auto simp: bfs_visit_def make_step_def)
  have f: "fst ` prel (previousNodes_b v) \<subseteq> insert cur ?E" using i(8) by blast
  have 3: "bfs_fold_ok ?E' (universe cfg) (visitedNodes_b ?v')
             (visitedNodes_b ?v', previousNodes_b ?v', queue_b ?v')"
    unfolding E' using i(3,4,5,6,7) f
    by (auto simp: bfs_fold_ok_def bfs_visit_def)
  have inv': "bfs_inv cfg ?v'" using 1 2 3 by (simp add: bfs_inv_def)
  have m: "(?v', v) \<in> bfs_measure cfg"
    by (rule frontier_measure_visit[where c = cur and d = "\<lambda>v. currentNode ` set (steps_b v)" and v = v,
            OF finite_universe cu ce]) (rule E')
  have nb: "\<forall>nb \<in> set (neighbors_of ?adj cur). nb \<in> universe cfg"
    using neighbor_ids_in_endpoints by (auto simp: universe_def)
  have "cur \<in> ?E'" by (simp add: E')
  from bfs_neighbors_ok[OF this nb 3]
  have 4: "bfs_fold_ok ?E' (universe cfg) (visitedNodes_b ?v')
             (visitedNodes_b (bfs_neighbors ?adj cur ?v'), previousNodes_b (bfs_neighbors ?adj cur ?v'),
              queue_b (bfs_neighbors ?adj cur ?v'))" .
  then have sub: "visitedNodes_b ?v' \<subseteq> visitedNodes_b (bfs_neighbors ?adj cur ?v')"
    by (simp add: bfs_fold_ok_def)
  have inv'': "bfs_inv cfg (bfs_neighbors ?adj cur ?v')"
    unfolding bfs_inv_def bfs_neighbors_steps
    using 1 2 4 sub by (auto simp: bfs_fold_ok_def)
  have m': "(bfs_neighbors ?adj cur ?v', v) \<in> bfs_measure cfg"
    by (rule frontier_measure_visit[where c = cur and d = "\<lambda>v. currentNode ` set (steps_b v)" and v = v,
            OF finite_universe cu ce])
       (simp add: bfs_neighbors_steps E')
  from Cons p inv' inv'' m m' show ?thesis by (auto simp: bfs_iter_def)
qed

lemma bfs_init_inv: "bfs_inv cfg (bfs_init cfg)"
  by (simp add: bfs_inv_def bfs_init_def steps_ok_def universe_def prel_init bfs_fold_ok_def)

lemma bfs_loop_total:
  "\<exists>v. bfs_loop cfg (build_adjacency_ids (graph cfg)) (bfs_init cfg) = Some v \<and> bfs_inv cfg v"
  by (rule while_total[where I = "bfs_inv cfg" and R = "bfs_measure cfg",
        OF bfs_loop_iter wf_frontier_measure bfs_iter_step bfs_init_inv])

lemma bfs_total:
  "\<exists>r. bfs cfg = Some r \<and> steps_ok (steps_r r)"
proof -
  from bfs_loop_total[of cfg] obtain v where
    v: "bfs_loop cfg (build_adjacency_ids (graph cfg)) (bfs_init cfg) = Some v"
    and inv: "bfs_inv cfg v" by blast
  from inv have "wf (prel (previousNodes_b v))" by (simp add: bfs_inv_def bfs_fold_ok_def)
  from reconstructPath_wf[OF this] obtain p where
    "reconstructPath (previousNodes_b v) (startNode cfg) (endNode cfg) = Some p" by blast
  with v inv show ?thesis
    by (simp add: bfs_def bfs_init_def[symmetric] bfs_inv_def)
qed

lemma dfs_loop_iter:
  "dfs_loop cfg adj v =
     (case dfs_iter cfg adj v of
        None \<Rightarrow> None
      | Some (Inl v') \<Rightarrow> Some v'
      | Some (Inr v1) \<Rightarrow> dfs_loop cfg adj v1)"
  by (subst dfs_loop.simps)
     (simp add: dfs_iter_def dfs_visit_def Let_def split: option.splits list.splits)

lemma dfs_relax_eq:
  "dfs_relax V cur (prev, stack) n =
     (if n \<notin> V \<and> n \<notin> dom prev then (prev(n \<mapsto> Some cur), n # stack) else (prev, stack))"
  by (simp add: dfs_relax_def)

lemma dfs_relax_ok:
  assumes "cur \<in> V" "nb \<in> U" "relax_ok V U (fst st) (set (snd st))"
  shows "relax_ok V U (fst (dfs_relax V cur st nb)) (set (snd (dfs_relax V cur st nb)))"
proof -
  obtain prev stack where st: "st = (prev, stack)" by (cases st)
  show ?thesis
  proof (cases "nb \<notin> V \<and> nb \<notin> dom prev")
    case True
    with relax_ok_update[of V U prev "set stack" nb cur] assms
    show ?thesis unfolding st by (simp add: dfs_relax_eq)
  next
    case False
    then have "dfs_relax V cur (prev, stack) nb = (prev, stack)"
      by (simp only: dfs_relax_eq if_False)
    with assms(3) show ?thesis unfolding st by simp
  qed
qed

lemma dfs_neighbors_fields:
  "steps_f (dfs_neighbors adj cur v) = steps_f v"
  "visitedNodes_f (dfs_neighbors adj cur v) = visitedNodes_f v"
  by (simp_all add: dfs_neighbors_def split: prod.splits)

lemma dfs_neighbors_ok:
  assumes "cur \<in> visitedNodes_f v"
    and "relax_ok (visitedNodes_f v) U (previousNodes_f v) (set (stack_f v))"
    and "\<forall>nb \<in> set (neighbors_of adj cur). nb \<in> U"
  shows "relax_ok (visitedNodes_f v) U
           (previousNodes_f (dfs_neighbors adj cur v)) (set (stack_f (dfs_neighbors adj cur v)))"
proof -
  let ?f = "foldl (dfs_relax (visitedNodes_f v) cur) (previousNodes_f v, stack_f v)
              (rev (neighbors_of adj cur))"
  have "relax_ok (visitedNodes_f v) U (fst ?f) (set (snd ?f))"
    by (rule foldl_inv[where P = "\<lambda>st. relax_ok (visitedNodes_f v) U (fst st) (set (snd st))"])
       (use assms in \<open>auto intro: dfs_relax_ok\<close>)
  moreover obtain a b where "?f = (a, b)" by (cases ?f)
  ultimately show ?thesis
    by (simp add: dfs_neighbors_def)
qed

lemma dfs_visit_inv:
  assumes inv: "dfs_inv cfg v"
    and pop: "stack_f v = cur # stack'"
    and nv: "cur \<notin> visitedNodes_f v"
  shows "dfs_inv cfg (dfs_visit cfg v cur stack' p)"
proof -
  let ?v' = "dfs_visit cfg v cur stack' p"
  from inv have i: "steps_ok (steps_f v)" "currentNode ` set (steps_f v) = visitedNodes_f v"
    "\<forall>st \<in> set (steps_f v). visitedNodes st \<subseteq> visitedNodes_f v"
    "visitedNodes_f v \<subseteq> universe cfg"
    "relax_ok (visitedNodes_f v) (universe cfg) (previousNodes_f v) (set (stack_f v))"
    by (simp_all add: dfs_inv_def)
  from pop i(5) have cu: "cur \<in> universe cfg" by (auto simp: relax_ok_def)
  have "\<forall>st \<in> set (steps_f v). visitedNodes st \<subseteq> insert cur (visitedNodes_f v)"
    using i(3) by blast
  moreover have "cur \<notin> currentNode ` set (steps_f v)" using i(2) nv by simp
  ultimately have 1: "steps_ok (steps_f ?v')"
    unfolding dfs_visit_def using i(1)
    by (simp add: make_step_def steps_ok_append)
  have 2: "currentNode ` set (steps_f ?v') = visitedNodes_f ?v'"
    using i(2) by (auto simp: dfs_visit_def make_step_def)
  have 3: "\<forall>st \<in> set (steps_f ?v'). visitedNodes st \<subseteq> visitedNodes_f ?v'"
    using i(3) by (auto simp: dfs_visit_def make_step_def)
  have 4: "visitedNodes_f ?v' \<subseteq> universe cfg"
    using i(4) cu by (auto simp: dfs_visit_def)
  have "set stack' \<subseteq> set (stack_f v)" using pop by auto
  from relax_ok_mono[OF i(5) this, of "insert cur (visitedNodes_f v)"]
  have 5: "relax_ok (visitedNodes_f ?v') (universe cfg) (previousNodes_f ?v') (set (stack_f ?v'))"
    by (auto simp: dfs_visit_def)
  from 1 2 3 4 5 show ?thesis unfolding dfs_inv_def by blast
qed

lemma dfs_neighbors_inv:
  assumes inv: "dfs_inv cfg v" and cur: "cur \<in> visitedNodes_f v"
  shows "dfs_inv cfg (dfs_neighbors (build_adjacency_ids (graph cfg)) cur v)"
proof -
  let ?adj = "build_adjacency_ids (graph cfg)"
  from inv have ok: "relax_ok (visitedNodes_f v) (universe cfg) (previousNodes_f v)
      (set (stack_f v))"
    by (simp add: dfs_inv_def)
  have nb: "\<forall>nb \<in> set (neighbors_of ?adj cur). nb \<in> universe cfg"
    using neighbor_ids_in_endpoints by (auto simp: universe_def)
  from dfs_neighbors_ok[OF cur ok nb] inv show ?thesis
    by (simp add: dfs_inv_def dfs_neighbors_fields)
qed

lemma dfs_iter_step:
  assumes inv: "dfs_inv cfg v"
  shows "(\<exists>v'. dfs_iter cfg (build_adjacency_ids (graph cfg)) v = Some (Inl v') \<and> dfs_inv cfg v') \<or>
         (\<exists>v1. dfs_iter cfg (build_adjacency_ids (graph cfg)) v = Some (Inr v1) \<and>
               dfs_inv cfg v1 \<and> (v1, v) \<in> dfs_measure cfg)"
proof (cases "stack_f v")
  case Nil
  with inv show ?thesis by (simp add: dfs_iter_def)
next
  case (Cons cur stack')
  let ?adj = "build_adjacency_ids (graph cfg)"
  show ?thesis
  proof (cases "cur \<in> visitedNodes_f v")
    case True
    have "set stack' \<subseteq> set (stack_f v)" using Cons by auto
    with inv have "dfs_inv cfg (v\<lparr>stack_f := stack'\<rparr>)"
      by (auto simp: dfs_inv_def intro: relax_ok_mono)
    moreover have "(v\<lparr>stack_f := stack'\<rparr>, v) \<in> dfs_measure cfg"
      using Cons by (intro frontier_measure_pop) auto
    ultimately show ?thesis using Cons True by (simp add: dfs_iter_def)
  next
    case nv: False
    from inv have "wf (prel (previousNodes_f v))" by (simp add: dfs_inv_def relax_ok_def)
    from reconstructPath_wf[OF this] obtain p where
      p: "reconstructPath (previousNodes_f v) (startNode cfg) cur = Some p" by blast
    let ?v' = "dfs_visit cfg v cur stack' p"
    have inv': "dfs_inv cfg ?v'" by (rule dfs_visit_inv[OF inv Cons nv])
    from inv Cons have cu: "cur \<in> universe cfg" by (auto simp: dfs_inv_def relax_ok_def)
    have m: "(?v', v) \<in> dfs_measure cfg"
      by (rule frontier_measure_visit[where d = visitedNodes_f and c = cur, OF finite_universe cu nv])
         (simp add: dfs_visit_def)
    have cv: "cur \<in> visitedNodes_f ?v'" by (simp add: dfs_visit_def)
    have inv'': "dfs_inv cfg (dfs_neighbors ?adj cur ?v')"
      by (rule dfs_neighbors_inv[OF inv' cv])
    have m': "(dfs_neighbors ?adj cur ?v', v) \<in> dfs_measure cfg"
      by (rule frontier_measure_visit[where d = visitedNodes_f and c = cur, OF finite_universe cu nv])
         (simp add: dfs_neighbors_fields dfs_visit_def)
    from Cons nv p inv' inv'' m m' show ?thesis by (auto simp: dfs_iter_def)
  qed
qed

lemma dfs_init_inv: "dfs_inv cfg (dfs_init cfg)"
  by (simp add: dfs_inv_def dfs_init_def steps_ok_def universe_def prel_init relax_ok_def)

lemma dfs_loop_total:
  "\<exists>v. dfs_loop cfg (build_adjacency_ids (graph cfg)) (dfs_init cfg) = Some v \<and> dfs_inv cfg v"
  by (rule while_total[where I = "dfs_inv cfg" and R = "dfs_measure cfg",
        OF dfs_loop_iter wf_frontier_measure dfs_iter_step dfs_init_inv])

lemma dfs_total:
  "\<exists>r. dfs cfg = Some r \<and> steps_ok (steps_r r)"
proof -
  from dfs_loop_total[of cfg] obtain v where
    v: "dfs_loop cfg (build_adjacency_ids (graph cfg)) (dfs_init cfg) = Some v"
    and inv: "dfs_inv cfg v" by blast
  from inv have "wf (prel (previousNodes_f v))" by (simp add: dfs_inv_def relax_ok_def)
  from reconstructPath_wf[OF this] obtain p where
    "reconstructPath (previousNodes_f v) (startNode cfg) (endNode cfg) = Some p" by blast
  with v inv show ?thesis
    by (simp add: dfs_def dfs_init_def[symmetric] dfs_inv_def)
qed

lemma steps_ok_nth:
  assumes "steps_ok stps"
  shows "(\<forall>i. Suc i < length stps \<longrightarrow> visitedNodes (stps ! i) \<subseteq> visitedNodes (stps ! Suc i)) \<and>
         distinct (map currentNode stps)"
  using assms by (auto simp: steps_ok_def sorted_wrt_iff_nth_less)

text \<open>
  Claim C8. For every graph, start id and end id, each of the four batch functions
  returns, and along the step sequence it returns the visited set of every PathStep
  contains the visited set of the PathStep before it, and no node id is the current node
  of two PathSteps.
\<close>

theorem visited_grows_nodes_once:
  "\<exists>rd ra rb rf.
     dijkstra cfg = Some rd \<and> astar cfg = Some ra \<and> bfs cfg = Some rb \<and> dfs cfg = Some rf \<and>
     (\<forall>r \<in> {rd, ra, rb, rf}.
        (\<forall>i. Suc i < length (steps_r r) \<longrightarrow>
              visitedNodes (steps_r r ! i) \<subseteq> visitedNodes (steps_r r ! Suc i)) \<and>
        distinct (map currentNode (steps_r r)))"
  using dijkstra_total[of cfg] astar_total[of cfg] bfs_total[of cfg] dfs_total[of cfg]
    steps_ok_nth by blast

theorem visited_grows_nodes_once_witness:
  "\<exists>rd ra rb rf.
     dijkstra (mk_cfg ''a'' ''c'' triangle) = Some rd \<and> astar (mk_cfg ''a'' ''c'' triangle) = Some ra \<and>
     bfs (mk_cfg ''a'' ''c'' triangle) = Some rb \<and> dfs (mk_cfg ''a'' ''c'' triangle) = Some rf \<and>
     Suc 0 < length (steps_r rd) \<and>
     visitedNodes (steps_r rd ! 0) \<subseteq> visitedNodes (steps_r rd ! Suc 0) \<and>
     Suc 0 < length (steps_r rb) \<and>
     visitedNodes (steps_r rb ! 0) \<subseteq> visitedNodes (steps_r rb ! Suc 0) \<and>
     distinct (map currentNode (steps_r ra)) \<and> distinct (map currentNode (steps_r rf))"
proof -
  let ?cfg = "mk_cfg ''a'' ''c'' triangle"
  have ld: "map_option (length \<circ> steps_r) (dijkstra ?cfg) = Some 3" by code_simp
  have lb: "map_option (length \<circ> steps_r) (bfs ?cfg) = Some 3" by code_simp
  from visited_grows_nodes_once[of ?cfg] obtain rd ra rb rf where
    r: "dijkstra ?cfg = Some rd" "astar ?cfg = Some ra" "bfs ?cfg = Some rb" "dfs ?cfg = Some rf"
    and p: "\<forall>r \<in> {rd, ra, rb, rf}.
        (\<forall>i. Suc i < length (steps_r r) \<longrightarrow>
              visitedNodes (steps_r r ! i) \<subseteq> visitedNodes (steps_r r ! Suc i)) \<and>
        distinct (map currentNode (steps_r r))" by blast
  from ld lb r have l: "length (steps_r rd) = 3" "length (steps_r rb) = 3" by auto
  with p have "visitedNodes (steps_r rd ! 0) \<subseteq> visitedNodes (steps_r rd ! Suc 0)"
    "visitedNodes (steps_r rb ! 0) \<subseteq> visitedNodes (steps_r rb ! Suc 0)"
    "distinct (map currentNode (steps_r ra))" "distinct (map currentNode (steps_r rf))"
    by auto
  with r l show ?thesis by auto
qed

section \<open>Optimality of A* under a consistent heuristic, and of Dijkstra\<close>

lemma arc_sym: "arc g u v w \<Longrightarrow> arc g v u w"
  by (auto simp: arc_def)

lemma arc_neighbors:
  "arc g u v w \<longleftrightarrow>
     v \<in> node_ids g \<and> (v, w) \<in> set (neighbors_of (build_adjacency g) u)"
  by (auto simp: arc_def neighbors_of_build_adjacency contrib_def split: if_splits)

lemma consistent_nonneg: "consistent cfg \<Longrightarrow> arc (graph cfg) u v w \<Longrightarrow> 0 \<le> w"
proof -
  assume c: "consistent cfg" and a: "arc (graph cfg) u v w"
  from c a have "hval cfg u \<le> w + hval cfg v" by (auto simp: consistent_def)
  moreover from c arc_sym[OF a] have "hval cfg v \<le> w + hval cfg u" by (auto simp: consistent_def)
  ultimately show ?thesis by linarith
qed

lemma reach_nonneg: "reach g s n d \<Longrightarrow> g = graph cfg \<Longrightarrow> consistent cfg \<Longrightarrow> 0 \<le> d"
  by (induction rule: reach.induct) (auto dest: consistent_nonneg)

lemma reach_node: "reach g s n d \<Longrightarrow> n \<in> node_ids g"
  by (induction rule: reach.induct) (auto simp: arc_def)

lemma heap_pop_set: "heap_pop h = Some (e, h') \<Longrightarrow> set h = insert e (set h')"
proof (induction h arbitrary: e h' rule: heap_pop.induct)
  case 1
  then show ?case by simp
next
  case (2 a h)
  show ?case
  proof (cases "heap_pop h")
    case None
    then have "h = []" by (simp add: heap_pop_None)
    with "2.prems" show ?thesis by simp
  next
    case (Some r)
    obtain m h1 where r: "r = (m, h1)" by (cases r)
    from "2.IH"[of m h1] Some r have IH: "set h = insert m (set h1)" by simp
    show ?thesis
    proof (cases "js_lt (fst m) (fst a)")
      case True
      with "2.prems" Some r have "e = m" "h' = a # h1" by simp_all
      then show ?thesis by (simp add: IH insert_commute)
    next
      case False
      with "2.prems" Some r have "e = a" "h' = h" by simp_all
      then show ?thesis by simp
    qed
  qed
qed

lemma js_lt_negtrans:
  "is_num a \<Longrightarrow> is_num b \<Longrightarrow> is_num c \<Longrightarrow> \<not> js_lt a b \<Longrightarrow> \<not> js_lt b c \<Longrightarrow> \<not> js_lt a c"
  by (auto simp: is_num_def)

lemma heap_pop_min:
  "heap_pop h = Some (e, h') \<Longrightarrow> \<forall>x \<in> set h. is_num (fst x) \<Longrightarrow>
   \<forall>x \<in> set h. \<not> js_lt (fst x) (fst e)"
proof (induction h arbitrary: e h' rule: heap_pop.induct)
  case 1
  then show ?case by simp
next
  case (2 a h)
  from "2.prems"(2) have na: "is_num (fst a)" and nh: "\<forall>x \<in> set h. is_num (fst x)" by auto
  show ?case
  proof (cases "heap_pop h")
    case None
    with "2.prems" na show ?thesis by (auto simp: heap_pop_None is_num_def)
  next
    case (Some r)
    obtain m h1 where r: "r = (m, h1)" by (cases r)
    from "2.IH"[of m h1] Some r nh have IH: "\<forall>x \<in> set h. \<not> js_lt (fst x) (fst m)" by auto
    from heap_pop_set[of h m h1] Some r have mh: "m \<in> set h" by auto
    with nh have nm: "is_num (fst m)" by auto
    show ?thesis
    proof (cases "js_lt (fst m) (fst a)")
      case True
      with "2.prems"(1) Some r have e: "e = m" by simp
      from True na nm have "\<not> js_lt (fst a) (fst m)" by (auto simp: is_num_def)
      with IH e show ?thesis by auto
    next
      case False
      with "2.prems"(1) Some r have e: "e = a" by simp
      have "\<not> js_lt (fst x) (fst a)" if "x \<in> set h" for x
        using js_lt_negtrans[of "fst x" "fst m" "fst a"] that nh nm na IH False by auto
      moreover from na have "\<not> js_lt (fst a) (fst a)" by (auto simp: is_num_def)
      ultimately show ?thesis using e by auto
    qed
  qed
qed

lemma opt_baseD:
  assumes "opt_base cfg V G P Q"
  shows "V \<subseteq> node_ids (graph cfg)"
    and "\<And>n. n \<notin> node_ids (graph cfg) \<Longrightarrow> G n = Undefined"
    and "\<And>n. n \<in> node_ids (graph cfg) \<Longrightarrow> G n \<noteq> Undefined"
    and "\<And>n d. G n = Num d \<Longrightarrow> reach (graph cfg) (startNode cfg) n d"
    and "\<exists>d0. d0 \<le> 0 \<and> G (startNode cfg) = Num d0"
    and "\<And>n. n \<in> V \<Longrightarrow> \<exists>d. G n = Num d \<and> (\<forall>d'. reach (graph cfg) (startNode cfg) n d' \<longrightarrow> d \<le> d')"
    and "\<And>n d. n \<notin> V \<Longrightarrow> G n = Num d \<Longrightarrow> (Num (d + hval cfg n), n) \<in> Q"
    and "\<And>x. x \<in> Q \<Longrightarrow> \<exists>d dn. fst x = Num (d + hval cfg (snd x)) \<and> G (snd x) = Num dn \<and> dn \<le> d"
    and "\<And>n p. P n = Some (Some p) \<Longrightarrow>
        p \<in> V \<and> (\<exists>w dp. arc (graph cfg) p n w \<and> G p = Num dp \<and> G n = Num (dp + w))"
    and "\<And>n d. G n = Num d \<Longrightarrow> n \<noteq> startNode cfg \<Longrightarrow> \<exists>p. P n = Some (Some p)"
  using assms unfolding opt_base_def by blast+

lemma opt_baseI:
  assumes "V \<subseteq> node_ids (graph cfg)"
    and "\<forall>n. n \<notin> node_ids (graph cfg) \<longrightarrow> G n = Undefined"
    and "\<forall>n \<in> node_ids (graph cfg). G n \<noteq> Undefined"
    and "\<forall>n d. G n = Num d \<longrightarrow> reach (graph cfg) (startNode cfg) n d"
    and "\<exists>d0. d0 \<le> 0 \<and> G (startNode cfg) = Num d0"
    and "\<forall>n \<in> V. \<exists>d. G n = Num d \<and> (\<forall>d'. reach (graph cfg) (startNode cfg) n d' \<longrightarrow> d \<le> d')"
    and "\<forall>n d. n \<notin> V \<and> G n = Num d \<longrightarrow> (Num (d + hval cfg n), n) \<in> Q"
    and "\<forall>x \<in> Q. \<exists>d dn. fst x = Num (d + hval cfg (snd x)) \<and> G (snd x) = Num dn \<and> dn \<le> d"
    and "\<forall>n p. P n = Some (Some p) \<longrightarrow>
        p \<in> V \<and> (\<exists>w dp. arc (graph cfg) p n w \<and> G p = Num dp \<and> G n = Num (dp + w))"
    and "\<forall>n d. G n = Num d \<and> n \<noteq> startNode cfg \<longrightarrow> (\<exists>p. P n = Some (Some p))"
  shows "opt_base cfg V G P Q"
  unfolding opt_base_def using assms by (intro conjI)

lemma frontier_bound:
  assumes r: "reach g s v d'"
    and g: "g = graph cfg" and s: "s = startNode cfg"
    and base: "opt_base cfg V G P Q"
    and rel: "relaxed_from cfg V G"
    and cons: "consistent cfg"
  shows "(v \<in> V \<and> (\<exists>dv. G v = Num dv \<and> dv \<le> d')) \<or>
         (\<exists>y dy. y \<notin> V \<and> G y = Num dy \<and> dy + hval cfg y \<le> d' + hval cfg v)"
  using r g s
proof (induction rule: reach.induct)
  case (reach_start s g)
  from opt_baseD(5)[OF base] obtain d0 where d0: "d0 \<le> 0" "G (startNode cfg) = Num d0" by blast
  show ?case
  proof (cases "s \<in> V")
    case True
    with d0 reach_start show ?thesis by auto
  next
    case False
    with d0 reach_start show ?thesis by (intro disjI2 exI[of _ s] exI[of _ d0]) auto
  qed
next
  case (reach_step g s u d v w)
  from reach_step.hyps(2) reach_step.prems have a: "arc (graph cfg) u v w" by simp
  from reach_step.IH[OF reach_step.prems] show ?case
  proof
    assume "u \<in> V \<and> (\<exists>du. G u = Num du \<and> du \<le> d)"
    then obtain du where u: "u \<in> V" "G u = Num du" "du \<le> d" by blast
    from rel u(1) a have "relaxed G u v w" by (auto simp: relaxed_from_def)
    with u(2) obtain dv where dv: "G v = Num dv" "dv \<le> du + w" by (auto simp: relaxed_def)
    show ?thesis
    proof (cases "v \<in> V")
      case True
      with dv u(3) show ?thesis by auto
    next
      case False
      with dv u(3) show ?thesis by (intro disjI2 exI[of _ v] exI[of _ dv]) auto
    qed
  next
    assume "\<exists>y dy. y \<notin> V \<and> G y = Num dy \<and> dy + hval cfg y \<le> d + hval cfg u"
    then obtain y dy where y: "y \<notin> V" "G y = Num dy" "dy + hval cfg y \<le> d + hval cfg u" by blast
    from cons a have "hval cfg u \<le> w + hval cfg v" by (auto simp: consistent_def)
    with y show ?thesis by (intro disjI2 exI[of _ y] exI[of _ dy]) auto
  qed
qed

lemma popped_fresh:
  assumes base: "opt_base cfg V G P Q"
    and pop: "(f, u) \<in> Q" "\<forall>x \<in> Q. \<not> js_lt (fst x) f" and nv: "u \<notin> V"
  shows "\<exists>du. G u = Num du \<and> f = Num (du + hval cfg u)"
proof -
  from opt_baseD(8)[OF base pop(1)] obtain d dn where
    d: "f = Num (d + hval cfg u)" "G u = Num dn" "dn \<le> d" by auto
  from opt_baseD(7)[OF base nv d(2)] have "(Num (dn + hval cfg u), u) \<in> Q" .
  with pop(2) have "\<not> js_lt (Num (dn + hval cfg u)) f" by force
  with d have "d = dn" by simp
  with d show ?thesis by simp
qed

lemma popped_optimal:
  assumes base: "opt_base cfg V G P Q"
    and rel: "relaxed_from cfg V G"
    and cons: "consistent cfg"
    and pop: "(f, u) \<in> Q" "\<forall>x \<in> Q. \<not> js_lt (fst x) f" and nv: "u \<notin> V"
    and gu: "G u = Num du"
  shows "\<forall>d'. reach (graph cfg) (startNode cfg) u d' \<longrightarrow> du \<le> d'"
proof (intro allI impI)
  fix d' assume r: "reach (graph cfg) (startNode cfg) u d'"
  from popped_fresh[OF base pop nv] gu have f: "f = Num (du + hval cfg u)" by simp
  from frontier_bound[OF r refl refl base rel cons] nv obtain y dy where
    y: "y \<notin> V" "G y = Num dy" "dy + hval cfg y \<le> d' + hval cfg u" by blast
  from opt_baseD(7)[OF base y(1,2)] have "(Num (dy + hval cfg y), y) \<in> Q" .
  with pop(2) have "\<not> js_lt (Num (dy + hval cfg y)) f" by force
  with f have "du + hval cfg u \<le> dy + hval cfg y" by simp
  with y(3) show "du \<le> d'" by simp
qed

lemma visit_base:
  assumes base: "opt_base cfg V G P Q"
    and rel: "relaxed_from cfg V G"
    and cons: "consistent cfg"
    and pop: "Q = insert (f, u) Q'" "\<forall>x \<in> Q. \<not> js_lt (fst x) f" and nv: "u \<notin> V"
  shows "opt_base cfg (insert u V) G P Q'"
proof (rule opt_baseI, goal_cases)
  have fu: "(f, u) \<in> Q" using pop(1) by simp
  from popped_fresh[OF base fu pop(2) nv] obtain du where
    du: "G u = Num du" "f = Num (du + hval cfg u)" by blast
  note opt = popped_optimal[OF base rel cons fu pop(2) nv du(1)]
  have uid: "u \<in> node_ids (graph cfg)"
    using opt_baseD(2)[OF base, of u] du(1) by auto
  {
    case 1
    show ?case using opt_baseD(1)[OF base] uid by simp
  next
    case 2
    show ?case using opt_baseD(2)[OF base] by simp
  next
    case 3
    show ?case using opt_baseD(3)[OF base] by simp
  next
    case 4
    show ?case using opt_baseD(4)[OF base] by simp
  next
    case 5
    show ?case using opt_baseD(5)[OF base] by simp
  next
    case 6
    show ?case
    proof
      fix n assume "n \<in> insert u V"
      then consider "n = u" | "n \<in> V" by blast
      then show "\<exists>d. G n = Num d \<and> (\<forall>d'. reach (graph cfg) (startNode cfg) n d' \<longrightarrow> d \<le> d')"
      proof cases
        case 1
        with du(1) opt show ?thesis by simp
      next
        case 2
        then show ?thesis by (rule opt_baseD(6)[OF base])
      qed
    qed
  next
    case 7
    show ?case
    proof (intro allI impI)
      fix n d assume a: "n \<notin> insert u V \<and> G n = Num d"
      then have "(Num (d + hval cfg n), n) \<in> Q" using opt_baseD(7)[OF base, of n d] by simp
      with a pop(1) show "(Num (d + hval cfg n), n) \<in> Q'" by auto
    qed
  next
    case 8
    show ?case
    proof
      fix x assume "x \<in> Q'"
      then have "x \<in> Q" using pop(1) by simp
      then show "\<exists>d dn. fst x = Num (d + hval cfg (snd x)) \<and> G (snd x) = Num dn \<and> dn \<le> d"
        by (rule opt_baseD(8)[OF base])
    qed
  next
    case 9
    show ?case
    proof (intro allI impI)
      fix n p assume "P n = Some (Some p)"
      from opt_baseD(9)[OF base this]
      show "p \<in> insert u V \<and> (\<exists>w dp. arc (graph cfg) p n w \<and> G p = Num dp \<and> G n = Num (dp + w))"
        by simp
    qed
  next
    case 10
    show ?case using opt_baseD(10)[OF base] by blast
  }
qed

lemma relaxed_mono:
  "relaxed G u v w \<Longrightarrow> G' u = G u \<Longrightarrow>
   (\<forall>d. G v = Num d \<longrightarrow> (\<exists>d'. G' v = Num d' \<and> d' \<le> d)) \<Longrightarrow> relaxed G' u v w"
  unfolding relaxed_def by (metis order_trans)

lemma js_lt_Num_cases:
  "js_lt (Num a) b \<Longrightarrow> b = Infinity \<or> (\<exists>d. b = Num d \<and> a < d)"
  by (cases b) auto

lemma relax_update_base:
  assumes base: "opt_base cfg V G P (set opn)"
    and cur: "cur \<in> V" and gc: "G cur = Num dc"
    and nb: "(n, w) \<in> set (neighbors_of (build_adjacency (graph cfg)) cur)"
    and nv: "n \<notin> V" and lt: "js_lt (Num (dc + w)) (G n)"
  shows "opt_base cfg V (G(n := Num (dc + w))) (P(n \<mapsto> Some cur))
           (set (opn @ [(Num (dc + w + hval cfg n), n)]))"
proof (rule opt_baseI, goal_cases)
  let ?G = "G(n := Num (dc + w))"
  from js_lt_Num_cases[OF lt] have gn: "G n = Infinity \<or> (\<exists>d. G n = Num d \<and> dc + w < d)" .
  then have "G n \<noteq> Undefined" by auto
  with opt_baseD(2)[OF base, of n] have nid: "n \<in> node_ids (graph cfg)" by blast
  from opt_baseD(1)[OF base] cur have cid: "cur \<in> node_ids (graph cfg)" by blast
  from nb nid have a: "arc (graph cfg) cur n w" by (simp add: arc_neighbors)
  from cur nv have ne: "cur \<noteq> n" by auto
  from opt_baseD(4)[OF base gc] a
  have rn: "reach (graph cfg) (startNode cfg) n (dc + w)" by (rule reach_step)
  {
    case 1
    show ?case by (rule opt_baseD(1)[OF base])
  next
    case 2
    show ?case using opt_baseD(2)[OF base] nid by auto
  next
    case 3
    show ?case using opt_baseD(3)[OF base] by auto
  next
    case 4
    show ?case using opt_baseD(4)[OF base] rn by auto
  next
    case 5
    from opt_baseD(5)[OF base] obtain d0 where d0: "d0 \<le> 0" "G (startNode cfg) = Num d0" by blast
    show ?case
    proof (cases "n = startNode cfg")
      case True
      with gn d0 have "dc + w < d0" by auto
      with d0 True show ?thesis by (intro exI[of _ "dc + w"]) auto
    next
      case False
      with d0 show ?thesis by auto
    qed
  next
    case 6
    show ?case using opt_baseD(6)[OF base] nv by auto
  next
    case 7
    show ?case using opt_baseD(7)[OF base] by auto
  next
    case 8
    show ?case
    proof
      fix x assume "x \<in> set (opn @ [(Num (dc + w + hval cfg n), n)])"
      then consider "x = (Num (dc + w + hval cfg n), n)" | "x \<in> set opn" by auto
      then show "\<exists>d dn. fst x = Num (d + hval cfg (snd x)) \<and> ?G (snd x) = Num dn \<and> dn \<le> d"
      proof cases
        case 1
        then show ?thesis by auto
      next
        case 2
        from opt_baseD(8)[OF base this] obtain d dn where
          x: "fst x = Num (d + hval cfg (snd x))" "G (snd x) = Num dn" "dn \<le> d" by blast
        show ?thesis
        proof (cases "snd x = n")
          case True
          with x gn have "dc + w \<le> d" by auto
          with x True show ?thesis by auto
        next
          case False
          with x show ?thesis by auto
        qed
      qed
    qed
  next
    case 9
    show ?case
    proof (intro allI impI)
      fix x p assume p: "(P(n \<mapsto> Some cur)) x = Some (Some p)"
      show "p \<in> V \<and> (\<exists>w' dp. arc (graph cfg) p x w' \<and> ?G p = Num dp \<and> ?G x = Num (dp + w'))"
      proof (cases "x = n")
        case True
        with p have "p = cur" by simp
        with True cur a gc ne show ?thesis by auto
      next
        case False
        with p have "P x = Some (Some p)" by simp
        from opt_baseD(9)[OF base this] obtain w' dp where
          "p \<in> V" "arc (graph cfg) p x w'" "G p = Num dp" "G x = Num (dp + w')" by blast
        with False nv show ?thesis by auto
      qed
    qed
  next
    case 10
    show ?case using opt_baseD(10)[OF base] by auto
  }
qed

lemma relax_skip_relaxed:
  assumes base: "opt_base cfg V G P Q"
    and cur: "cur \<in> V" and gc: "G cur = Num dc"
    and a: "arc (graph cfg) cur n w"
    and no: "\<not> (n \<notin> V \<and> js_lt (Num (dc + w)) (G n))"
  shows "relaxed G cur n w"
proof -
  from a have nid: "n \<in> node_ids (graph cfg)" by (simp add: arc_def)
  from opt_baseD(4)[OF base gc] a
  have rn: "reach (graph cfg) (startNode cfg) n (dc + w)" by (rule reach_step)
  show ?thesis
  proof (cases "n \<in> V")
    case True
    from opt_baseD(6)[OF base True] rn obtain d where "G n = Num d" "d \<le> dc + w" by blast
    with gc show ?thesis by (simp add: relaxed_def)
  next
    case False
    with no have nlt: "\<not> js_lt (Num (dc + w)) (G n)" by simp
    from opt_baseD(3)[OF base nid] nlt obtain d where "G n = Num d" "\<not> dc + w < d"
      by (cases "G n") auto
    with gc show ?thesis by (simp add: relaxed_def)
  qed
qed

lemma foldl_inv_prefix:
  assumes "J pre s"
    and "\<And>pre x s. J pre s \<Longrightarrow> x \<in> set xs \<Longrightarrow> J (pre @ [x]) (f s x)"
  shows "J (pre @ xs) (foldl f s xs)"
  using assms
proof (induction xs arbitrary: pre s)
  case Nil
  then show ?case by simp
next
  case (Cons x xs)
  from Cons.prems(2)[OF Cons.prems(1), of x] have "J (pre @ [x]) (f s x)" by simp
  from Cons.IH[OF this] Cons.prems(2) show ?case by simp
qed

lemma skip_base:
  assumes base: "opt_base cfg V G P Q" and pop: "Q = insert (f, u) Q'" and uv: "u \<in> V"
  shows "opt_base cfg V G P Q'"
proof (rule opt_baseI, goal_cases)
  case 7
  show ?case
  proof (intro allI impI)
    fix n d assume a: "n \<notin> V \<and> G n = Num d"
    then have "(Num (d + hval cfg n), n) \<in> Q" using opt_baseD(7)[OF base, of n d] by simp
    with a pop uv show "(Num (d + hval cfg n), n) \<in> Q'" by auto
  qed
next
  case 8
  show ?case using opt_baseD(8)[OF base] pop by auto
qed (use base in \<open>simp_all add: opt_base_def\<close>)

lemma astar_relax_fold_inv:
  assumes inv: "astar_fold_inv cfg V cur pre st"
    and cur: "cur \<in> V"
    and nb: "nb \<in> set (neighbors_of (build_adjacency (graph cfg)) cur)"
  shows "astar_fold_inv cfg V cur (pre @ [nb]) (astar_relax cfg V cur st nb)"
proof -
  obtain G F P opn where st: "st = (G, F, P, opn)" by (cases st)
  obtain n w where nbe: "nb = (n, w)" by (cases nb)
  from inv st have base: "opt_base cfg V G P (set opn)" and F: "F = scores_of_g cfg G"
    and rel: "relaxed_from cfg (V - {cur}) G"
    and pre: "\<forall>nb \<in> set pre. fst nb \<in> node_ids (graph cfg) \<longrightarrow> relaxed G cur (fst nb) (snd nb)"
    by (simp_all add: astar_fold_inv_def)
  from opt_baseD(6)[OF base cur] obtain dc where gc: "G cur = Num dc" by blast
  show ?thesis
  proof (cases "n \<notin> V \<and> js_lt (js_add (G cur) w) (G n)")
    case True
    then have nv: "n \<notin> V" and lt: "js_lt (Num (dc + w)) (G n)" using gc by simp_all
    let ?G = "G(n := Num (dc + w))"
    let ?h = "heuristic n (endNode cfg) (graph cfg)"
    have h: "?h = hval cfg n" by (simp add: hval_def)
    have eq: "astar_relax cfg V cur st (n, w) =
        (?G, F(n := Num (dc + w + hval cfg n)), P(n \<mapsto> Some cur),
         opn @ [(Num (dc + w + hval cfg n), n)])"
      using True gc unfolding st astar_relax_eq h by simp
    from nb nbe have nb': "(n, w) \<in> set (neighbors_of (build_adjacency (graph cfg)) cur)" by simp
    note base' = relax_update_base[OF base cur gc nb' nv lt]
    have F': "F(n := Num (dc + w + hval cfg n)) = scores_of_g cfg ?G"
      unfolding F scores_of_g_def by (rule ext) simp
    have dec: "\<forall>x d. G x = Num d \<longrightarrow> (\<exists>d'. ?G x = Num d' \<and> d' \<le> d)"
      using js_lt_Num_cases[OF lt] by auto
    have same: "\<And>u. u \<in> V \<Longrightarrow> ?G u = G u" using nv by auto
    have rel': "relaxed_from cfg (V - {cur}) ?G"
      unfolding relaxed_from_def
    proof (intro ballI allI impI)
      fix u v' w' assume u: "u \<in> V - {cur}" and a: "arc (graph cfg) u v' w'"
      with rel have "relaxed G u v' w'" by (auto simp: relaxed_from_def)
      then show "relaxed ?G u v' w'"
        by (rule relaxed_mono) (use same[of u] u dec in auto)
    qed
    have pre': "\<forall>nb \<in> set (pre @ [(n, w)]). fst nb \<in> node_ids (graph cfg) \<longrightarrow>
                 relaxed ?G cur (fst nb) (snd nb)"
    proof (intro ballI impI)
      fix x assume x: "x \<in> set (pre @ [(n, w)])" and xi: "fst x \<in> node_ids (graph cfg)"
      from x consider "x = (n, w)" | "x \<in> set pre" by auto
      then show "relaxed ?G cur (fst x) (snd x)"
      proof cases
        case 1
        with cur nv show ?thesis by (auto simp: relaxed_def gc)
      next
        case 2
        with pre xi have "relaxed G cur (fst x) (snd x)" by blast
        then show ?thesis
          by (rule relaxed_mono) (use same[OF cur] dec in auto)
      qed
    qed
    from base' F' rel' pre' show ?thesis
      unfolding nbe eq astar_fold_inv_def by simp
  next
    case False
    then have eq: "astar_relax cfg V cur st (n, w) = st"
      unfolding st by (simp only: astar_relax_eq if_False)
    have "relaxed G cur n w" if "n \<in> node_ids (graph cfg)"
    proof -
      from nb nbe that have "arc (graph cfg) cur n w" by (simp add: arc_neighbors)
      from relax_skip_relaxed[OF base cur gc this] False gc show ?thesis by simp
    qed
    with inv show ?thesis
      unfolding nbe eq unfolding st astar_fold_inv_def by auto
  qed
qed

lemma astar_neighbors_opt:
  assumes base: "opt_base cfg (visitedNodes_a v) (gScore_a v) (previousNodes_a v) (set (openSet_a v))"
    and F: "fScore_a v = scores_of_g cfg (gScore_a v)"
    and rel: "relaxed_from cfg (visitedNodes_a v - {cur}) (gScore_a v)"
    and cur: "cur \<in> visitedNodes_a v"
    and ne: "endNode cfg \<notin> visitedNodes_a v"
  shows "astar_opt cfg (astar_neighbors cfg (build_adjacency (graph cfg)) cur v)"
proof -
  let ?adj = "build_adjacency (graph cfg)"
  let ?V = "visitedNodes_a v"
  let ?s0 = "(gScore_a v, fScore_a v, previousNodes_a v, openSet_a v)"
  let ?f = "foldl (astar_relax cfg ?V cur) ?s0 (neighbors_of ?adj cur)"
  have 0: "astar_fold_inv cfg ?V cur [] ?s0"
    using base F rel by (simp add: astar_fold_inv_def)
  have "astar_fold_inv cfg ?V cur ([] @ neighbors_of ?adj cur) ?f"
    by (rule foldl_inv_prefix[where J = "astar_fold_inv cfg ?V cur", OF 0])
       (rule astar_relax_fold_inv[OF _ cur])
  moreover obtain G F' P opn where f: "?f = (G, F', P, opn)" by (cases ?f)
  ultimately have b: "opt_base cfg ?V G P (set opn)" and F': "F' = scores_of_g cfg G"
    and r: "relaxed_from cfg (?V - {cur}) G"
    and n: "\<forall>nb \<in> set (neighbors_of ?adj cur). fst nb \<in> node_ids (graph cfg) \<longrightarrow>
              relaxed G cur (fst nb) (snd nb)"
    by (simp_all add: astar_fold_inv_def)
  have "relaxed_from cfg ?V G"
    unfolding relaxed_from_def
  proof (intro ballI allI impI)
    fix u v' w assume u: "u \<in> ?V" and a: "arc (graph cfg) u v' w"
    show "relaxed G u v' w"
    proof (cases "u = cur")
      case True
      with a n show ?thesis by (force simp: arc_neighbors)
    next
      case False
      with u a r show ?thesis by (auto simp: relaxed_from_def)
    qed
  qed
  with b F' ne f show ?thesis
    by (simp add: astar_opt_def astar_neighbors_def)
qed

lemma astar_visit_fields:
  "visitedNodes_a (astar_visit cfg v u opn' p) = insert u (visitedNodes_a v)"
  "gScore_a (astar_visit cfg v u opn' p) = gScore_a v"
  "fScore_a (astar_visit cfg v u opn' p) = fScore_a v"
  "previousNodes_a (astar_visit cfg v u opn' p) = previousNodes_a v"
  "openSet_a (astar_visit cfg v u opn' p) = opn'"
  by (simp_all add: astar_visit_def)

lemma opt_base_heap_num: "opt_base cfg V G P Q \<Longrightarrow> \<forall>x \<in> Q. is_num (fst x)"
  using opt_baseD(8) by (fastforce simp: is_num_def)

lemma astar_iter_opt:
  assumes opt: "astar_opt cfg v" and cons: "consistent cfg"
    and it: "astar_iter cfg (build_adjacency (graph cfg)) v = Some r"
  shows "case r of Inl v' \<Rightarrow> astar_post cfg v' | Inr v1 \<Rightarrow> astar_opt cfg v1"
proof (cases "heap_pop (openSet_a v)")
  case None
  then have "openSet_a v = []" by (simp add: heap_pop_None)
  moreover from None it have "r = Inl v" by (simp add: astar_iter_def)
  ultimately show ?thesis using opt by (simp add: astar_post_def astar_opt_def)
next
  case (Some c)
  let ?adj = "build_adjacency (graph cfg)"
  let ?V = "visitedNodes_a v" and ?G = "gScore_a v" and ?P = "previousNodes_a v"
  obtain current opn' where c: "c = (current, opn')" by (cases c)
  with Some have pop: "heap_pop (openSet_a v) = Some (current, opn')" by simp
  obtain f u where cur: "current = (f, u)" by (cases current)
  from opt have base: "opt_base cfg ?V ?G ?P (set (openSet_a v))"
    and F: "fScore_a v = scores_of_g cfg ?G"
    and rel: "relaxed_from cfg ?V ?G" and ne: "endNode cfg \<notin> ?V"
    by (simp_all add: astar_opt_def)
  from heap_pop_set[OF pop] cur have hs: "set (openSet_a v) = insert (f, u) (set opn')" by simp
  from heap_pop_min[OF pop opt_base_heap_num[OF base]] cur
  have hm: "\<forall>x \<in> set (openSet_a v). \<not> js_lt (fst x) f" by simp
  show ?thesis
  proof (cases "u \<in> ?V")
    case True
    with pop cur it have r: "r = Inr (v\<lparr>openSet_a := opn'\<rparr>)" by (simp add: astar_iter_def)
    from skip_base[OF base hs True] F rel ne show ?thesis
      unfolding r by (simp add: astar_opt_def)
  next
    case False
    from pop cur False it obtain p where
      p: "reconstructPath ?P (startNode cfg) u = Some p"
      by (auto simp: astar_iter_def split: option.splits)
    let ?v' = "astar_visit cfg v u opn' p"
    note base' = visit_base[OF base rel cons hs hm False]
    have fu: "(f, u) \<in> set (openSet_a v)" using hs by simp
    from popped_fresh[OF base fu hm False] obtain du where
      du: "?G u = Num du" "f = Num (du + hval cfg u)" by blast
    then have nst: "\<not> js_gt f (fScore_a v u)"
      by (simp add: F scores_of_g_def js_gt_def)
    show ?thesis
    proof (cases "u = endNode cfg")
      case True
      with astar_iter_visit[OF pop _ _, of cfg p ?adj] cur False p it
      have r: "r = Inl ?v'" by simp
      from base' True show ?thesis
        unfolding r by (simp add: astar_post_def astar_visit_fields)
    next
      case nend: False
      with astar_iter_visit[OF pop _ _, of cfg p ?adj] cur False p it nst
      have r: "r = Inr (astar_neighbors cfg ?adj u ?v')" by simp
      have iv: "insert u ?V - {u} = ?V" using False by auto
      have "astar_opt cfg (astar_neighbors cfg ?adj u ?v')"
        by (rule astar_neighbors_opt)
           (use base' F rel ne nend iv in \<open>simp_all add: astar_visit_fields\<close>)
      then show ?thesis unfolding r by simp
    qed
  qed
qed

lemma init_fScore_scores_of_g:
  "init_fScore cfg = scores_of_g cfg (init_distances (graph cfg) (startNode cfg))"
  by (rule ext) (simp add: init_fScore_apply init_distances_apply scores_of_g_def hval_def)

lemma astar_init_opt:
  assumes s: "startNode cfg \<in> node_ids (graph cfg)"
  shows "astar_opt cfg (astar_init cfg)"
proof -
  let ?G = "init_distances (graph cfg) (startNode cfg)"
  have opn: "openSet_a (astar_init cfg) = [(Num (hval cfg (startNode cfg)), startNode cfg)]"
    using s by (simp add: astar_init_def heap_push_def init_fScore_apply hval_def)
  have "opt_base cfg {} ?G (init_previousNodes (graph cfg))
          (set [(Num (hval cfg (startNode cfg)), startNode cfg)])"
  proof (rule opt_baseI, goal_cases)
    case 4
    show ?case using s by (auto simp: init_distances_apply intro: reach_start split: if_splits)
  next
    case 5
    show ?case using s by (simp add: init_distances_apply)
  next
    case 7
    show ?case by (auto simp: init_distances_apply split: if_splits)
  next
    case 8
    show ?case using s by (simp add: init_distances_apply)
  next
    case 9
    show ?case by (simp add: init_previousNodes_apply)
  next
    case 10
    show ?case by (auto simp: init_distances_apply split: if_splits)
  qed (simp_all add: init_distances_apply)
  then show ?thesis
    unfolding astar_opt_def opn
    by (simp add: astar_init_def init_fScore_scores_of_g relaxed_from_def)
qed

lemma astar_loop_opt:
  assumes cons: "consistent cfg" and s: "startNode cfg \<in> node_ids (graph cfg)"
  shows "\<exists>v. astar_loop cfg (build_adjacency (graph cfg)) (astar_init cfg) = Some v \<and>
             astar_inv cfg v \<and> astar_post cfg v"
proof (rule while_total[where I = "\<lambda>v. astar_inv cfg v \<and> astar_opt cfg v"
        and R = "astar_measure cfg", OF astar_loop_iter wf_frontier_measure])
  show "astar_inv cfg (astar_init cfg) \<and> astar_opt cfg (astar_init cfg)"
    using astar_init_inv astar_init_opt[OF s] by simp
next
  fix v assume I: "astar_inv cfg v \<and> astar_opt cfg v"
  let ?it = "astar_iter cfg (build_adjacency (graph cfg)) v"
  from astar_iter_step[of cfg v] I
  consider v' where "?it = Some (Inl v')" "astar_inv cfg v'"
    | v1 where "?it = Some (Inr v1)" "astar_inv cfg v1" "(v1, v) \<in> astar_measure cfg"
    by blast
  then show "(\<exists>v'. ?it = Some (Inl v') \<and> astar_inv cfg v' \<and> astar_post cfg v') \<or>
             (\<exists>v1. ?it = Some (Inr v1) \<and> (astar_inv cfg v1 \<and> astar_opt cfg v1) \<and>
                    (v1, v) \<in> astar_measure cfg)"
  proof cases
    case 1
    with astar_iter_opt[OF _ cons 1(1)] I show ?thesis by simp
  next
    case 2
    with astar_iter_opt[OF _ cons 2(1)] I show ?thesis by simp
  qed
qed

lemma arc_edge_weights: "arc g u v w \<longleftrightarrow> u \<in> node_ids g \<and> v \<in> node_ids g \<and> w \<in> set (edge_weights g u v)"
  by (auto simp: arc_def edge_weights_def)

lemma edge_cost_le: "arc g u v w \<Longrightarrow> edge_cost g u v \<le> w"
  by (simp add: arc_edge_weights edge_cost_def)

lemma edge_cost_arc:
  "u \<in> node_ids g \<Longrightarrow> v \<in> node_ids g \<Longrightarrow> edge_weights g u v \<noteq> [] \<Longrightarrow> arc g u v (edge_cost g u v)"
  unfolding arc_edge_weights edge_cost_def by (simp add: Min_in)

lemma is_path_last_node: "is_path g q \<Longrightarrow> last q \<in> node_ids g"
  by (induction g q rule: is_path.induct) auto

lemma is_path_hd_node: "is_path g q \<Longrightarrow> hd q \<in> node_ids g"
  by (induction g q rule: is_path.induct) auto

lemma reach_path:
  "is_path g q \<Longrightarrow> reach g s (hd q) d \<Longrightarrow> reach g s (last q) (d + path_weight g q)"
proof (induction g q arbitrary: d rule: is_path.induct)
  case (1 g)
  then show ?case by simp
next
  case (2 g u)
  then show ?case by simp
next
  case (3 g u v p)
  from "3.prems"(1) have u: "u \<in> node_ids g" and e: "edge_weights g u v \<noteq> []"
    and p: "is_path g (v # p)" by simp_all
  from is_path_hd_node[OF p] have v: "v \<in> node_ids g" by simp
  from "3.prems"(2) edge_cost_arc[OF u v e] have "reach g s v (d + edge_cost g u v)"
    by (auto intro: reach_step)
  from "3.IH"[OF p] this have "reach g s (last (v # p)) (d + edge_cost g u v + path_weight g (v # p))"
    by simp
  then show ?case by (simp add: add.assoc)
qed

lemma path_between_reach: "path_between g s t q \<Longrightarrow> reach g s t (path_weight g q)"
  using reach_path[of g q s 0] is_path_hd_node[of g q]
  by (auto simp: path_between_def intro: reach_start)

lemma is_path_snoc:
  "is_path g q \<Longrightarrow> arc g (last q) n w \<Longrightarrow>
   is_path g (q @ [n]) \<and> path_weight g (q @ [n]) = path_weight g q + edge_cost g (last q) n"
proof (induction g q rule: is_path.induct)
  case (1 g)
  then show ?case by simp
next
  case (2 g u)
  then show ?case by (auto simp: arc_edge_weights)
next
  case (3 g u v p)
  then show ?case by simp
qed

lemma reach_path_between: "reach g s t d \<Longrightarrow> \<exists>q. path_between g s t q"
proof (induction rule: reach.induct)
  case (reach_start s g)
  then show ?case by (intro exI[of _ "[s]"]) (simp add: path_between_def)
next
  case (reach_step g s u d v w)
  then obtain q where q: "is_path g q" "hd q = s" "last q = u" by (auto simp: path_between_def)
  from is_path_snoc[OF q(1)] reach_step.hyps(2) q(3) have "is_path g (q @ [v])" by simp
  moreover from q(1) have "q \<noteq> []" by auto
  ultimately show ?case using q(2) by (intro exI[of _ "q @ [v]"]) (simp add: path_between_def)
qed

text \<open>The parent links of a state lead from every scored node back to the start node.\<close>

lemma parent_path:
  assumes base: "opt_base cfg V G P Q" and wf: "wf (prel P)"
    and ne: "[] \<notin> node_ids (graph cfg)"
    and d0: "G (startNode cfg) = Num d0"
  shows "G n = Num d \<Longrightarrow>
         \<exists>q. reconstructPath_loop P (startNode cfg) n acc = Some (q @ acc) \<and>
             path_between (graph cfg) (startNode cfg) n q \<and>
             path_weight (graph cfg) q + d0 \<le> d"
  using wf
proof (induction n arbitrary: d acc rule: wf_induct_rule)
  case (less n)
  let ?s = "startNode cfg" and ?g = "graph cfg"
  show ?case
  proof (cases "n = ?s")
    case True
    have "reconstructPath_loop P ?s n acc = Some ([n] @ acc)"
      using True by (subst reconstructPath_loop.simps) simp
    moreover from opt_baseD(4)[OF base less.prems] have "n \<in> node_ids ?g" by (rule reach_node)
    ultimately show ?thesis using True d0 less.prems
      by (intro exI[of _ "[n]"]) (simp add: path_between_def)
  next
    case False
    from opt_baseD(10)[OF base less.prems False] obtain p where p: "P n = Some (Some p)" by blast
    from opt_baseD(9)[OF base p] obtain w dp where
      pv: "p \<in> V" and a: "arc ?g p n w" and gp: "G p = Num dp" and gn: "G n = Num (dp + w)"
      by blast
    from pv opt_baseD(1)[OF base] ne have "p \<noteq> []" by auto
    with p have gon: "get_or_null P n = Some p" by (simp add: get_or_null_def)
    then have "(p, n) \<in> prel P" by (simp add: prel_def)
    from less.IH[OF this gp, of "n # acc"] obtain q where
      q: "reconstructPath_loop P ?s p (n # acc) = Some (q @ n # acc)"
         "path_between ?g ?s p q" "path_weight ?g q + d0 \<le> dp" by blast
    from q(2) have qp: "is_path ?g q" "hd q = ?s" "last q = p" by (simp_all add: path_between_def)
    from qp(1) have qne: "q \<noteq> []" by auto
    from is_path_snoc[OF qp(1), of n w] a qp(3)
    have sn: "is_path ?g (q @ [n])" "path_weight ?g (q @ [n]) = path_weight ?g q + edge_cost ?g p n"
      by simp_all
    have "reconstructPath_loop P ?s n acc = Some ((q @ [n]) @ acc)"
      using False gon q(1) by (subst reconstructPath_loop.simps) simp
    moreover have "path_between ?g ?s n (q @ [n])"
      using sn(1) qp(2) qne by (simp add: path_between_def)
    moreover have "path_weight ?g (q @ [n]) + d0 \<le> d"
      using sn(2) edge_cost_le[OF a] q(3) gn less.prems by simp
    ultimately show ?thesis by blast
  qed
qed

lemma search_post_path:
  assumes base: "opt_base cfg V G P Q" and wf: "wf (prel P)"
    and fin: "endNode cfg \<in> V \<or> Q = {} \<and> relaxed_from cfg V G"
    and cons: "consistent cfg" and ne: "[] \<notin> node_ids (graph cfg)"
  shows "\<exists>q. reconstructPath P (startNode cfg) (endNode cfg) = Some q \<and> shortest_or_empty cfg q"
proof -
  let ?s = "startNode cfg" and ?t = "endNode cfg" and ?g = "graph cfg"
  from opt_baseD(5)[OF base] obtain d0 where d0: "d0 \<le> 0" "G ?s = Num d0" by blast
  from reach_nonneg[OF opt_baseD(4)[OF base d0(2)] refl cons] d0(1) have z: "d0 = 0" by simp
  show ?thesis
  proof (cases "?t \<in> V")
    case True
    from opt_baseD(6)[OF base True] obtain dt where
      dt: "G ?t = Num dt" "\<forall>d'. reach ?g ?s ?t d' \<longrightarrow> dt \<le> d'" by blast
    from parent_path[OF base wf ne d0(2) dt(1), of "[]"] z obtain q where
      q: "reconstructPath_loop P ?s ?t [] = Some q" "path_between ?g ?s ?t q"
         "path_weight ?g q \<le> dt" by auto
    from q(2) have "q \<noteq> []" "hd q = ?s" by (auto simp: path_between_def)
    with q(1) have r: "reconstructPath P ?s ?t = Some q"
      by (cases q) (simp_all add: reconstructPath_def)
    have "path_weight ?g q \<le> path_weight ?g q'" if "path_between ?g ?s ?t q'" for q'
      using path_between_reach[OF that] dt(2) q(3) by force
    with q(2) have "shortest_or_empty cfg q"
      unfolding shortest_or_empty_def shortest_def by auto
    with r show ?thesis by blast
  next
    case False
    with fin have e: "Q = {}" and rel: "relaxed_from cfg V G" by auto
    have nr: "\<not> reach ?g ?s ?t d'" for d'
    proof
      assume "reach ?g ?s ?t d'"
      from frontier_bound[OF this refl refl base rel cons] False obtain y dy where
        "y \<notin> V" "G y = Num dy" by blast
      from opt_baseD(7)[OF base this] e show False by simp
    qed
    then have np: "\<not> (\<exists>q'. path_between ?g ?s ?t q')" using path_between_reach by blast
    from nr opt_baseD(4)[OF base] have gt: "\<And>d. G ?t \<noteq> Num d" by blast
    from gt[of d0] d0(2) have ts: "?t \<noteq> ?s" by auto
    have "get_or_null P ?t = None"
    proof (cases "get_or_null P ?t")
      case (Some p)
      then have "P ?t = Some (Some p)"
        by (auto simp: get_or_null_def split: option.splits if_splits)
      from opt_baseD(9)[OF base this] gt show ?thesis by auto
    qed simp
    with ts have "reconstructPath_loop P ?s ?t [] = Some [?t]"
      by (subst reconstructPath_loop.simps) simp
    with ts have "reconstructPath P ?s ?t = Some []" by (simp add: reconstructPath_def)
    with np show ?thesis by (simp add: shortest_or_empty_def)
  qed
qed

lemma astar_optimal:
  assumes cons: "consistent cfg" and s: "startNode cfg \<in> node_ids (graph cfg)"
    and ne: "[] \<notin> node_ids (graph cfg)"
  shows "\<exists>r. astar cfg = Some r \<and> shortest_or_empty cfg (path_r r)"
proof -
  from astar_loop_opt[OF cons s] obtain v where
    v: "astar_loop cfg (build_adjacency (graph cfg)) (astar_init cfg) = Some v"
    and inv: "astar_inv cfg v" and post: "astar_post cfg v" by blast
  from inv have wf: "wf (prel (previousNodes_a v))" by (simp add: astar_inv_def relax_ok_def)
  from post have base: "opt_base cfg (visitedNodes_a v) (gScore_a v) (previousNodes_a v)
      (set (openSet_a v))"
    and fin: "endNode cfg \<in> visitedNodes_a v \<or>
              set (openSet_a v) = {} \<and> relaxed_from cfg (visitedNodes_a v) (gScore_a v)"
    by (auto simp: astar_post_def)
  from search_post_path[OF base wf fin cons ne] obtain q where
    "reconstructPath (previousNodes_a v) (startNode cfg) (endNode cfg) = Some q"
    "shortest_or_empty cfg q" by blast
  with v show ?thesis by (simp add: astar_def astar_init_def[symmetric])
qed

lemma flat_simps:
  "startNode (flat cfg) = startNode cfg"
  "endNode (flat cfg) = endNode cfg"
  "edges (graph (flat cfg)) = edges (graph cfg)"
  "node_ids (graph (flat cfg)) = node_ids (graph cfg)"
  by (simp_all add: flat_def node_ids_def image_image)

lemma flat_init:
  "build_adjacency (graph (flat cfg)) = build_adjacency (graph cfg)"
  "init_previousNodes (graph (flat cfg)) = init_previousNodes (graph cfg)"
  "init_distances (graph (flat cfg)) s = init_distances (graph cfg) s"
  unfolding build_adjacency_def init_previousNodes_def init_distances_def flat_def
  by (simp_all add: foldl_map)

lemma find_flat:
  "find (\<lambda>n. id_n n = k) (map (\<lambda>n. n\<lparr>x_n := 0, y_n := 0\<rparr>) ns) =
     map_option (\<lambda>n. n\<lparr>x_n := 0, y_n := 0\<rparr>) (find (\<lambda>n. id_n n = k) ns)"
  by (induction ns) auto

lemma heuristic_flat: "heuristic n t (graph (flat cfg)) = 0"
  by (simp add: heuristic_def flat_def find_flat split: option.splits)

lemma hval_flat: "hval (flat cfg) n = 0"
  by (simp add: hval_def heuristic_flat)

lemma js_add_0: "js_add a 0 = a"
  by (cases a) auto

lemma relax_sim:
  "astar_relax (flat cfg) V cur (G, G, P, opn) nb =
     (case dijkstra_relax V cur (G, P, opn) nb of (G', P', opn') \<Rightarrow> (G', G', P', opn'))"
proof -
  obtain n w where nb: "nb = (n, w)" by (cases nb)
  show ?thesis
    unfolding nb astar_relax_eq dijkstra_relax_eq
    by (simp add: heuristic_flat js_add_0)
qed

lemma relax_fold_sim:
  "foldl (astar_relax (flat cfg) V cur) (G, G, P, opn) xs =
     (case foldl (dijkstra_relax V cur) (G, P, opn) xs of (G', P', opn') \<Rightarrow> (G', G', P', opn'))"
proof (induction xs arbitrary: G P opn)
  case Nil
  then show ?case by simp
next
  case (Cons x xs)
  obtain G1 P1 opn1 where r: "dijkstra_relax V cur (G, P, opn) x = (G1, P1, opn1)"
    by (cases "dijkstra_relax V cur (G, P, opn) x")
  with relax_sim[of cfg V cur G P opn x]
  have "astar_relax (flat cfg) V cur (G, G, P, opn) x = (G1, G1, P1, opn1)" by simp
  with r Cons.IH[of G1 P1 opn1] show ?case by simp
qed

lemma neighbors_sim:
  assumes "fScore_a v = gScore_a v"
  shows "to_dijkstra (astar_neighbors (flat cfg) adj cur v) = dijkstra_neighbors adj cur (to_dijkstra v)"
    and "fScore_a (astar_neighbors (flat cfg) adj cur v) = gScore_a (astar_neighbors (flat cfg) adj cur v)"
proof -
  let ?d = "foldl (dijkstra_relax (visitedNodes_a v) cur)
              (gScore_a v, previousNodes_a v, openSet_a v) (neighbors_of adj cur)"
  obtain G' P' opn' where d: "?d = (G', P', opn')" by (cases ?d)
  with relax_fold_sim[of cfg "visitedNodes_a v" cur "gScore_a v" "previousNodes_a v" "openSet_a v"
      "neighbors_of adj cur"] assms
  have a: "foldl (astar_relax (flat cfg) (visitedNodes_a v) cur)
             (gScore_a v, fScore_a v, previousNodes_a v, openSet_a v) (neighbors_of adj cur)
           = (G', G', P', opn')" by simp
  show "to_dijkstra (astar_neighbors (flat cfg) adj cur v) = dijkstra_neighbors adj cur (to_dijkstra v)"
    using a d by (simp add: astar_neighbors_def dijkstra_neighbors_def to_dijkstra_def)
  show "fScore_a (astar_neighbors (flat cfg) adj cur v) = gScore_a (astar_neighbors (flat cfg) adj cur v)"
    using a by (simp add: astar_neighbors_def)
qed

lemma visit_sim:
  "to_dijkstra (astar_visit (flat cfg) v u opn' p) = dijkstra_visit cfg (to_dijkstra v) u opn' p"
  "fScore_a (astar_visit (flat cfg) v u opn' p) = fScore_a v"
  "gScore_a (astar_visit (flat cfg) v u opn' p) = gScore_a v"
  by (simp_all add: astar_visit_def dijkstra_visit_def to_dijkstra_def flat_simps)

lemma dijkstra_iter_alt:
  "dijkstra_iter cfg adj v =
     (case heap_pop (pq_d v) of
        None \<Rightarrow> Some (Inl v)
      | Some (current, pq') \<Rightarrow>
          (if snd current \<in> visitedNodes_d v then Some (Inr (v\<lparr>pq_d := pq'\<rparr>))
           else case reconstructPath (previousNodes_d v) (startNode cfg) (snd current) of
             None \<Rightarrow> None
           | Some p \<Rightarrow>
               (if snd current = endNode cfg then Some (Inl (dijkstra_visit cfg v (snd current) pq' p))
                else if js_gt (fst current) (distances_d v (snd current))
                  then Some (Inr (dijkstra_visit cfg v (snd current) pq' p))
                else Some (Inr (dijkstra_neighbors adj (snd current)
                                  (dijkstra_visit cfg v (snd current) pq' p))))))"
  by (simp add: dijkstra_iter_def dijkstra_visit_def Let_def heap_isEmpty_def heap_pop_None
      split: option.splits prod.splits)

lemma iter_sim:
  assumes fg: "fScore_a v = gScore_a v"
  shows "dijkstra_iter cfg adj (to_dijkstra v) =
           map_option (map_sum to_dijkstra to_dijkstra) (astar_iter (flat cfg) adj v)"
    and "\<forall>v1. astar_iter (flat cfg) adj v = Some (Inr v1) \<longrightarrow> fScore_a v1 = gScore_a v1"
proof -
  have f: "visitedNodes_d (to_dijkstra v) = visitedNodes_a v" "pq_d (to_dijkstra v) = openSet_a v"
    "previousNodes_d (to_dijkstra v) = previousNodes_a v" "distances_d (to_dijkstra v) = gScore_a v"
    by (simp_all add: to_dijkstra_def)
  have u: "to_dijkstra v\<lparr>pq_d := q\<rparr> = to_dijkstra (v\<lparr>openSet_a := q\<rparr>)" for q
    by (simp add: to_dijkstra_def)
  have ns: "to_dijkstra (astar_neighbors (flat cfg) adj c (astar_visit (flat cfg) v c q p)) =
            dijkstra_neighbors adj c (dijkstra_visit cfg (to_dijkstra v) c q p)" for c q p
    using neighbors_sim(1)[of "astar_visit (flat cfg) v c q p" cfg adj c] fg
    by (simp add: visit_sim)
  show "dijkstra_iter cfg adj (to_dijkstra v) =
           map_option (map_sum to_dijkstra to_dijkstra) (astar_iter (flat cfg) adj v)"
    unfolding dijkstra_iter_alt astar_iter_def f
    by (simp add: flat_simps fg u visit_sim ns split: option.splits prod.splits)
  show "\<forall>v1. astar_iter (flat cfg) adj v = Some (Inr v1) \<longrightarrow> fScore_a v1 = gScore_a v1"
    unfolding astar_iter_def
    by (auto simp: fg visit_sim neighbors_sim(2) split: option.splits prod.splits if_splits)
qed

lemma while_sim:
  fixes loop1 :: "'a \<Rightarrow> 'a option" and loop2 :: "'b \<Rightarrow> 'b option"
  assumes unfold1: "\<And>v. loop1 v = (case iter1 v of None \<Rightarrow> None | Some (Inl v') \<Rightarrow> Some v'
                                     | Some (Inr v1) \<Rightarrow> loop1 v1)"
    and unfold2: "\<And>v. loop2 v = (case iter2 v of None \<Rightarrow> None | Some (Inl v') \<Rightarrow> Some v'
                                     | Some (Inr v1) \<Rightarrow> loop2 v1)"
    and wf: "wf R"
    and step: "\<And>v. I v \<Longrightarrow> (\<exists>v'. iter1 v = Some (Inl v') \<and> Q v') \<or>
                             (\<exists>v1. iter1 v = Some (Inr v1) \<and> I v1 \<and> (v1, v) \<in> R)"
    and sim: "\<And>v. S v \<Longrightarrow> iter2 (phi v) = map_option (map_sum phi phi) (iter1 v) \<and>
                            (\<forall>v1. iter1 v = Some (Inr v1) \<longrightarrow> S v1)"
  shows "I v \<Longrightarrow> S v \<Longrightarrow> loop2 (phi v) = map_option phi (loop1 v)"
  using wf
proof (induction v rule: wf_induct_rule)
  case (less v)
  from sim[OF less.prems(2)] have s: "iter2 (phi v) = map_option (map_sum phi phi) (iter1 v)"
    "\<And>v1. iter1 v = Some (Inr v1) \<Longrightarrow> S v1" by auto
  from step[OF less.prems(1)] show ?case
  proof
    assume "\<exists>v'. iter1 v = Some (Inl v') \<and> Q v'"
    then obtain v' where "iter1 v = Some (Inl v')" by blast
    with s(1) show ?thesis by (subst unfold2, subst unfold1) simp
  next
    assume "\<exists>v1. iter1 v = Some (Inr v1) \<and> I v1 \<and> (v1, v) \<in> R"
    then obtain v1 where 1: "iter1 v = Some (Inr v1)" "I v1" "(v1, v) \<in> R" by blast
    from less.IH[OF 1(3) 1(2) s(2)[OF 1(1)]] 1(1) s(1)
    show ?thesis by (subst unfold2, subst unfold1) simp
  qed
qed

lemma dijkstra_loop_sim:
  assumes "astar_inv (flat cfg) v" "fScore_a v = gScore_a v"
  shows "dijkstra_loop cfg (build_adjacency (graph cfg)) (to_dijkstra v) =
           map_option to_dijkstra (astar_loop (flat cfg) (build_adjacency (graph cfg)) v)"
proof (rule while_sim[where I = "astar_inv (flat cfg)"
      and S = "\<lambda>v::AStarVars. fScore_a v = gScore_a v"
      and R = "astar_measure (flat cfg)" and Q = "astar_inv (flat cfg)",
      OF astar_loop_iter dijkstra_loop_iter wf_frontier_measure _ _ assms])
  fix v :: AStarVars assume "astar_inv (flat cfg) v"
  from astar_iter_step[OF this]
  show "(\<exists>v'. astar_iter (flat cfg) (build_adjacency (graph cfg)) v = Some (Inl v') \<and>
              astar_inv (flat cfg) v') \<or>
        (\<exists>v1. astar_iter (flat cfg) (build_adjacency (graph cfg)) v = Some (Inr v1) \<and>
              astar_inv (flat cfg) v1 \<and> (v1, v) \<in> astar_measure (flat cfg))"
    by (simp add: flat_init)
next
  fix v :: AStarVars assume "fScore_a v = gScore_a v"
  from iter_sim[OF this, of cfg "build_adjacency (graph cfg)"]
  show "dijkstra_iter cfg (build_adjacency (graph cfg)) (to_dijkstra v) =
          map_option (map_sum to_dijkstra to_dijkstra)
            (astar_iter (flat cfg) (build_adjacency (graph cfg)) v) \<and>
        (\<forall>v1. astar_iter (flat cfg) (build_adjacency (graph cfg)) v = Some (Inr v1) \<longrightarrow>
              fScore_a v1 = gScore_a v1)" by simp
qed

lemma dijkstra_is_flat_astar:
  assumes s: "startNode cfg \<in> node_ids (graph cfg)"
  shows "dijkstra cfg = astar (flat cfg)"
proof -
  let ?adj = "build_adjacency (graph cfg)"
  have fi: "init_fScore (flat cfg) = init_distances (graph cfg) (startNode cfg)"
    by (rule ext) (simp add: init_fScore_apply init_distances_apply flat_simps heuristic_flat)
  have i: "dijkstra_init cfg = to_dijkstra (astar_init (flat cfg))"
    using s by (simp add: dijkstra_init_def astar_init_def to_dijkstra_def flat_init flat_simps fi
        init_distances_apply)
  have fg: "fScore_a (astar_init (flat cfg)) = gScore_a (astar_init (flat cfg))"
    by (simp add: astar_init_def fi flat_init flat_simps)
  from dijkstra_loop_sim[OF astar_init_inv fg]
  have l: "dijkstra_loop cfg ?adj (dijkstra_init cfg) =
           map_option to_dijkstra (astar_loop (flat cfg) ?adj (astar_init (flat cfg)))"
    by (simp add: i)
  have A: "astar (flat cfg) =
      (case astar_loop (flat cfg) ?adj (astar_init (flat cfg)) of
         None \<Rightarrow> None
       | Some v \<Rightarrow>
           (case reconstructPath (previousNodes_a v) (startNode cfg) (endNode cfg) of
              None \<Rightarrow> None
            | Some p \<Rightarrow> Some \<lparr>path_r = p, steps_r = steps_a v, visitedNodes_r = visitedNodes_a v\<rparr>))"
    unfolding astar_def astar_init_def flat_init flat_simps by (rule refl)
  have D: "dijkstra cfg =
      (case dijkstra_loop cfg ?adj (dijkstra_init cfg) of
         None \<Rightarrow> None
       | Some v \<Rightarrow>
           (case reconstructPath (previousNodes_d v) (startNode cfg) (endNode cfg) of
              None \<Rightarrow> None
            | Some p \<Rightarrow> Some \<lparr>path_r = p, steps_r = steps_d v, visitedNodes_r = visitedNodes_d v\<rparr>))"
    unfolding dijkstra_def dijkstra_init_def by (rule refl)
  show ?thesis
    unfolding A D l
    by (cases "astar_loop (flat cfg) ?adj (astar_init (flat cfg))")
       (simp_all add: to_dijkstra_def split: option.splits)
qed

lemma edge_weights_flat: "edge_weights (graph (flat cfg)) u v = edge_weights (graph cfg) u v"
  by (simp add: edge_weights_def flat_simps)

lemma path_weight_flat: "path_weight (graph (flat cfg)) q = path_weight (graph cfg) q"
  by (induction "graph cfg" q rule: path_weight.induct)
     (simp_all add: edge_cost_def edge_weights_flat)

lemma is_path_flat: "is_path (graph (flat cfg)) q = is_path (graph cfg) q"
  by (induction "graph cfg" q rule: is_path.induct) (simp_all add: edge_weights_flat flat_simps)

lemma path_between_flat: "path_between (graph (flat cfg)) s t q = path_between (graph cfg) s t q"
  by (simp add: path_between_def is_path_flat)

lemma shortest_flat: "shortest (graph (flat cfg)) s t q = shortest (graph cfg) s t q"
  by (simp add: shortest_def path_between_flat path_weight_flat)

lemma shortest_or_empty_flat: "shortest_or_empty (flat cfg) q = shortest_or_empty cfg q"
  by (simp only: shortest_or_empty_def shortest_flat path_between_flat flat_simps)

lemma arc_flat: "arc (graph (flat cfg)) u v w = arc (graph cfg) u v w"
  by (simp add: arc_def flat_simps)

lemma consistent_flat: "consistent cfg \<Longrightarrow> consistent (flat cfg)"
  using consistent_nonneg[of cfg] by (auto simp: consistent_def hval_flat arc_flat)

lemma dijkstra_optimal:
  assumes cons: "consistent cfg" and s: "startNode cfg \<in> node_ids (graph cfg)"
    and ne: "[] \<notin> node_ids (graph cfg)"
  shows "\<exists>r. dijkstra cfg = Some r \<and> shortest_or_empty cfg (path_r r)"
  using astar_optimal[of "flat cfg"] consistent_flat[OF cons] s ne
  by (simp add: dijkstra_is_flat_astar flat_simps shortest_or_empty_flat)

lemma find_id_None: "find (\<lambda>n. id_n n = k) (nodes g) = None \<longleftrightarrow> k \<notin> node_ids g"
  by (auto simp: find_None_iff node_ids_def)

lemma heuristic_nonneg: "0 \<le> heuristic a b g"
  by (simp add: heuristic_def Let_def split: option.splits)

lemma heuristic_sym: "heuristic a b g = heuristic b a g"
proof -
  have "(p - q) * (p - q) = (q - p) * (q - p)" for p q :: real by algebra
  then show ?thesis by (simp add: heuristic_def Let_def split: option.splits)
qed

lemma dist_triangle_sqrt:
  fixes ax ay bx "by" tx ty :: real
  shows "sqrt ((ax - tx) * (ax - tx) + (ay - ty) * (ay - ty)) \<le>
         sqrt ((ax - bx) * (ax - bx) + (ay - by) * (ay - by)) +
         sqrt ((bx - tx) * (bx - tx) + (by - ty) * (by - ty))"
  using real_sqrt_sum_squares_triangle_ineq[of "ax - bx" "bx - tx" "ay - by" "by - ty"]
  by (simp add: power2_eq_square)

lemma heuristic_triangle:
  assumes "b \<in> node_ids g"
  shows "heuristic a t g \<le> heuristic a b g + heuristic b t g"
proof (cases "find (\<lambda>n. id_n n = a) (nodes g)")
  case None
  then have "heuristic a t g = 0" by (simp add: heuristic_def)
  with heuristic_nonneg[of a b g] heuristic_nonneg[of b t g] show ?thesis by simp
next
  case a: (Some na)
  show ?thesis
  proof (cases "find (\<lambda>n. id_n n = t) (nodes g)")
    case None
    with a have "heuristic a t g = 0" by (simp add: heuristic_def)
    with heuristic_nonneg[of a b g] heuristic_nonneg[of b t g] show ?thesis by simp
  next
    case t: (Some nt)
    from assms obtain nb where b: "find (\<lambda>n. id_n n = b) (nodes g) = Some nb"
      using find_id_None[of b g] by (cases "find (\<lambda>n. id_n n = b) (nodes g)") auto
    from dist_triangle_sqrt[of "x_n na" "x_n nt" "y_n na" "y_n nt" "x_n nb" "y_n nb"]
    show ?thesis by (simp add: heuristic_def a b t Let_def)
  qed
qed

lemma admissible_consistent:
  assumes "weights_admissible (graph cfg)"
  shows "consistent cfg"
  unfolding consistent_def
proof (intro allI impI)
  fix u v w assume a: "arc (graph cfg) u v w"
  let ?g = "graph cfg"
  from a obtain e where e: "e \<in> set (edges ?g)" "weight e = w"
    "from_e e = u \<and> to_e e = v \<or> to_e e = u \<and> from_e e = v"
    and uv: "u \<in> node_ids ?g" "v \<in> node_ids ?g"
    by (auto simp: arc_def)
  from assms e uv have "heuristic u v ?g \<le> w"
    using heuristic_sym[of u v ?g] by (auto simp: weights_admissible_def)
  with heuristic_triangle[OF uv(2), of u "endNode cfg"]
  show "hval cfg u \<le> w + hval cfg v" by (simp add: hval_def)
qed

lemma shortest_weight_unique:
  "shortest g s t q \<Longrightarrow> shortest g s t q' \<Longrightarrow> path_weight g q = path_weight g q'"
  by (auto simp: shortest_def intro: antisym)

text \<open>
  In exact arithmetic the two searches agree where the heuristic is admissible: on every
  graph in which the weight of each edge between two nodes is at least the heuristic of
  one endpoint towards the other (their straight-line distance divided by 20), and in
  which no node id is the empty string, \<open>astar\<close> and \<open>dijkstra\<close> both return, and their
  final paths have the same total edge weight. This locates the defect shown below in the
  scale of the heuristic against the edge weights, not in the search loop. It is a
  statement about the model's real arithmetic: the source's doubles round sums from
  \<open>2 ^ 53\<close> on, and there the two functions can differ even under these hypotheses.
\<close>

lemma astar_weight_equals_dijkstra:
  "weights_admissible (graph cfg) \<Longrightarrow> [] \<notin> node_ids (graph cfg) \<Longrightarrow>
   \<exists>ra rd. astar cfg = Some ra \<and> dijkstra cfg = Some rd \<and>
           path_weight (graph cfg) (path_r ra) = path_weight (graph cfg) (path_r rd)"
proof -
  assume adm: "weights_admissible (graph cfg)" and ne: "[] \<notin> node_ids (graph cfg)"
  show ?thesis
  proof (cases "startNode cfg \<in> node_ids (graph cfg)")
    case True
    note cons = admissible_consistent[OF adm]
    from astar_optimal[OF cons True ne] obtain ra where
      ra: "astar cfg = Some ra" "shortest_or_empty cfg (path_r ra)" by blast
    from dijkstra_optimal[OF cons True ne] obtain rd where
      rd: "dijkstra cfg = Some rd" "shortest_or_empty cfg (path_r rd)" by blast
    from ra(2) rd(2) have "path_weight (graph cfg) (path_r ra) = path_weight (graph cfg) (path_r rd)"
      by (auto simp: shortest_or_empty_def intro: shortest_weight_unique split: if_splits)
    with ra(1) rd(1) show ?thesis by blast
  next
    case False
    then show ?thesis by (simp add: astar_missing_start dijkstra_missing_start)
  qed
qed

lemma sqrt_3600: "sqrt 3600 = 60"
  by (rule real_sqrt_unique) simp_all

lemma heuristic_detour:
  "heuristic ''s'' ''t'' detour = 0" "heuristic ''m'' ''t'' detour = 3" "heuristic ''t'' ''t'' detour = 0"
  by (simp_all add: heuristic_def detour_def mk_node_def sqrt_3600)

lemma dijkstra_detour:
  "map_option path_r (dijkstra (mk_cfg ''s'' ''t'' detour)) = Some [''s'', ''m'', ''t'']"
  by code_simp

lemma path_weight_detour:
  "path_weight detour [''s'', ''m'', ''t''] = 2" "path_weight detour [''s'', ''t''] = 3"
  by (simp_all add: edge_cost_def edge_weights_def detour_def mk_edge_def)

lemma adjacency_detour:
  "neighbors_of (build_adjacency detour) ''s'' = [(''t'', 3), (''m'', 1)]"
  "neighbors_of (build_adjacency detour) ''m'' = [(''s'', 1), (''t'', 1)]"
  by (simp_all add: neighbors_of_build_adjacency contrib_def detour_def mk_edge_def mk_node_def node_ids_def)

lemma astar_detour:
  "map_option path_r (astar (mk_cfg ''s'' ''t'' detour)) = Some [''s'', ''t'']"
  unfolding astar_def
  apply (subst astar_loop.simps)
  apply (simp add: mk_cfg_def heap_isEmpty_def heap_push_def init_fScore_apply init_distances_apply
      init_previousNodes_apply node_ids_def detour_def[THEN arg_cong, of nodes] mk_node_def
      reconstructPath_init Let_def js_gt_def heuristic_detour astar_neighbors_def adjacency_detour
      astar_relax_def)
  apply (subst astar_loop.simps)
  apply (simp add: heap_isEmpty_def js_gt_def Let_def reconstructPath_def get_or_null_def
      init_previousNodes_apply)
  apply (subst reconstructPath_loop.simps)
  apply (simp add: get_or_null_def)
  apply (subst reconstructPath_loop.simps)
  apply (simp add: Let_def reconstructPath_def get_or_null_def mk_cfg_def)
  apply (subst reconstructPath_loop.simps)
  apply (simp add: get_or_null_def)
  apply (subst reconstructPath_loop.simps)
  apply simp
  done

lemma weights_admissible_line3: "weights_admissible line3"
  by (simp add: weights_admissible_def line3_def mk_edge_def mk_node_def heuristic_def)

lemma heuristic_generated4:
  "heuristic ''node-0'' ''node-3'' generated4 = 59 / 2"
  "heuristic ''node-1'' ''node-3'' generated4 = 65 / 2"
  "heuristic ''node-2'' ''node-3'' generated4 = 15"
  "heuristic ''node-3'' ''node-3'' generated4 = 0"
  by (simp_all add: heuristic_def generated4_def mk_node_def)

lemma dijkstra_generated4:
  "map_option path_r (dijkstra (mk_cfg ''node-0'' ''node-3'' generated4))
     = Some [''node-0'', ''node-1'', ''node-3'']"
  by code_simp

lemma path_weight_generated4:
  "path_weight generated4 [''node-0'', ''node-1'', ''node-3''] = 24"
  "path_weight generated4 [''node-0'', ''node-2'', ''node-3''] = 31"
  by (simp_all add: edge_cost_def edge_weights_def generated4_def mk_edge_def)

lemma adjacency_generated4:
  "neighbors_of (build_adjacency generated4) ''node-0'' = [(''node-1'', 4), (''node-2'', 15)]"
  "neighbors_of (build_adjacency generated4) ''node-2'' = [(''node-0'', 15), (''node-3'', 16)]"
  by (simp_all add: neighbors_of_build_adjacency contrib_def generated4_def mk_edge_def
      mk_node_def node_ids_def)

lemma reconstructPath_loop_at_start:
  "reconstructPath_loop prev s s acc = Some (s # acc)"
  by (subst reconstructPath_loop.simps) simp

lemma reconstructPath_loop_unroll:
  "c \<noteq> s \<Longrightarrow> reconstructPath_loop prev s c acc =
     (case get_or_null prev c of
        None \<Rightarrow> Some (c # acc)
      | Some nxt \<Rightarrow> reconstructPath_loop prev s nxt (c # acc))"
  by (subst reconstructPath_loop.simps) simp

lemmas run_generated4 =
  mk_cfg_def heap_isEmpty_def heap_push_def init_fScore_apply init_distances_apply
  init_previousNodes_apply node_ids_def generated4_def[THEN arg_cong, of nodes] mk_node_def
  Let_def js_gt_def heuristic_generated4 astar_neighbors_def adjacency_generated4 astar_relax_def
  reconstructPath_def get_or_null_def reconstructPath_loop_at_start reconstructPath_loop_unroll

lemma astar_generated4:
  "map_option path_r (astar (mk_cfg ''node-0'' ''node-3'' generated4))
     = Some [''node-0'', ''node-2'', ''node-3'']"
  unfolding astar_def
  apply (subst astar_loop.simps)
  apply (simp add: run_generated4)
  apply (subst astar_loop.simps)
  apply (simp add: run_generated4)
  apply (subst astar_loop.simps)
  apply (simp add: run_generated4)
  done

lemma dijkstra_triangle:
  "map_option path_r (dijkstra (mk_cfg ''a'' ''c'' triangle)) = Some [''a'', ''b'', ''c'']"
  by code_simp

lemma dijkstra_optimal_nonneg:
  assumes w: "\<forall>e \<in> set (edges (graph cfg)). 0 \<le> weight e"
    and s: "startNode cfg \<in> node_ids (graph cfg)" and ne: "[] \<notin> node_ids (graph cfg)"
  shows "\<exists>r. dijkstra cfg = Some r \<and> shortest_or_empty cfg (path_r r)"
proof -
  have "consistent (flat cfg)"
    unfolding consistent_def hval_flat arc_flat using w by (auto simp: arc_def)
  from astar_optimal[OF this] s ne show ?thesis
    by (simp add: dijkstra_is_flat_astar flat_simps shortest_or_empty_flat)
qed

text \<open>
  The heuristic overestimates on graphs of the shape the repository's own generator
  builds. In \<open>generated4\<close> the edge from \<open>node-1\<close> to the target \<open>node-3\<close> spans 650 units, so its
  weight is capped at 20 while the heuristic of \<open>node-1\<close> is 32.5: \<open>astar\<close> scores
  \<open>node-1\<close> at 36.5, finalizes the target over \<open>node-2\<close> at 31 and returns a path of weight
  31; \<open>dijkstra\<close> returns the path over \<open>node-1\<close> of weight 24.
\<close>

lemma astar_heavier_on_generated_graph:
  "map_option (path_weight generated4 \<circ> path_r)
     (astar (mk_cfg ''node-0'' ''node-3'' generated4)) = Some 31 \<and>
   map_option (path_weight generated4 \<circ> path_r)
     (dijkstra (mk_cfg ''node-0'' ''node-3'' generated4)) = Some 24"
proof -
  from astar_generated4 obtain ra where
    ra: "astar (mk_cfg ''node-0'' ''node-3'' generated4) = Some ra"
        "path_r ra = [''node-0'', ''node-2'', ''node-3'']" by auto
  from dijkstra_generated4 obtain rd where
    rd: "dijkstra (mk_cfg ''node-0'' ''node-3'' generated4) = Some rd"
        "path_r rd = [''node-0'', ''node-1'', ''node-3'']" by auto
  show ?thesis
    unfolding ra(1) rd(1) option.map comp_def ra(2) rd(2) path_weight_generated4 by simp
qed

text \<open>
  Claim C6 fails on the code: \<open>astar\<close> does not return a path of the weight of
  \<open>dijkstra\<close>'s on every graph. The heuristic is the straight-line distance divided by the
  fixed constant 20, and nothing relates it to the edge weights. On the graph \<open>detour\<close>
  the node \<open>m\<close> lies 60 units away from the target \<open>t\<close>, so its heuristic is 3 although
  the edge from \<open>m\<close> to \<open>t\<close> weighs 1: \<open>astar\<close> finalizes \<open>t\<close> over the direct edge of
  weight 3 before it looks at \<open>m\<close>, while \<open>dijkstra\<close> returns the route over \<open>m\<close> of
  weight 2. All numbers of the two runs are small integers, on which doubles are exact.
  The application itself promises the opposite (ComparisonWarning.tsx:
  \<open>Both Guarantee Shortest Path\<close>, \<open>Both algorithms will find the optimal weighted path\<close>),
  and lemma \<open>astar_heavier_on_generated_graph\<close> shows the same on a graph of the shape its
  own generator builds.
\<close>

theorem astar_heavier_than_dijkstra:
  "map_option (path_weight detour \<circ> path_r) (astar (mk_cfg ''s'' ''t'' detour)) = Some 3 \<and>
   map_option (path_weight detour \<circ> path_r) (dijkstra (mk_cfg ''s'' ''t'' detour)) = Some 2"
proof -
  from astar_detour obtain ra where
    ra: "astar (mk_cfg ''s'' ''t'' detour) = Some ra" "path_r ra = [''s'', ''t'']" by auto
  from dijkstra_detour obtain rd where
    rd: "dijkstra (mk_cfg ''s'' ''t'' detour) = Some rd" "path_r rd = [''s'', ''m'', ''t'']" by auto
  show ?thesis unfolding ra(1) rd(1) option.map comp_def ra(2) rd(2) path_weight_detour by simp
qed

text \<open>
  The hypotheses of \<open>astar_weight_equals_dijkstra\<close> hold at the graph \<open>line3\<close>, whose three
  nodes lie 20 units apart on a line and whose edge weights are at least the heuristic
  between their endpoints.
\<close>

lemma astar_weight_equals_dijkstra_line3:
  "weights_admissible (graph (mk_cfg ''a'' ''c'' line3)) \<and>
   [] \<notin> node_ids (graph (mk_cfg ''a'' ''c'' line3)) \<and>
   (\<exists>ra rd. astar (mk_cfg ''a'' ''c'' line3) = Some ra \<and>
            dijkstra (mk_cfg ''a'' ''c'' line3) = Some rd \<and>
            path_weight (graph (mk_cfg ''a'' ''c'' line3)) (path_r ra) =
            path_weight (graph (mk_cfg ''a'' ''c'' line3)) (path_r rd))"
proof -
  have g: "graph (mk_cfg ''a'' ''c'' line3) = line3" by (simp add: mk_cfg_def)
  have n: "[] \<notin> node_ids line3" by (simp add: node_ids_def line3_def mk_node_def)
  show ?thesis
    using astar_weight_equals_dijkstra[of "mk_cfg ''a'' ''c'' line3"] weights_admissible_line3 n
    unfolding g by simp
qed

text \<open>
  Claim C2 fails on a graph with a node whose id is the empty string. In \<open>empty_id\<close> the
  only route from \<open>a\<close> to \<open>c\<close> runs through that node, both edges have weight 1, and
  \<open>dijkstra\<close> finalizes all three nodes; but \<open>reconstructPath\<close> reads the parent of \<open>c\<close>
  with \<open>previousNodes.get(current) || null\<close>, takes the empty string for null, and the
  final path is empty. (Lemma \<open>dijkstra_optimal_nonneg\<close> shows that, in exact arithmetic,
  the returned path is a minimum-weight path whenever no node id is empty, and lemma
  \<open>dijkstra_triangle\<close> evaluates the triangle graph of the claim.)
\<close>

theorem dijkstra_misses_route_through_empty_id:
  "path_between empty_id ''a'' ''c'' [''a'', [], ''c''] \<and>
   map_option path_r (dijkstra (mk_cfg ''a'' ''c'' empty_id)) = Some []"
proof
  show "path_between empty_id ''a'' ''c'' [''a'', [], ''c'']"
    by (simp add: path_between_def edge_weights_def empty_id_def mk_edge_def mk_node_def node_ids_def)
  show "map_option path_r (dijkstra (mk_cfg ''a'' ''c'' empty_id)) = Some []"
    by code_simp
qed

end
